theory Spec2Isabelle
  imports Main
begin

section \<open>Data model of the Livy client (livytest.py)\<close>

text \<open>
  The client talks JSON over signed HTTP. A JSON document is a tree; a Python dict is an
  association list of its items (the keys of a dict are distinct).
\<close>

datatype json =
    JNull
  | JBool bool
  | JNum int
  | JStr string
  | JArr "json list"
  | JObj "(string \<times> json) list"

text \<open>
  What the client reads of a \<^verbatim>\<open>requests.Response\<close>: the status code, the headers
  (a dict) and the body; \<open>body = None\<close> is a body that is not JSON.
\<close>

record response =
  status_code :: int
  headers :: "string \<rightharpoonup> string"
  body :: "json option"

text \<open>
  The exceptions that can leave the client. \<open>Exception\<close> is the plain
  \<^verbatim>\<open>raise Exception(...)\<close> of the source, tagged with the place that raises it (the
  message texts are not modelled).
\<close>

datatype raise_site =
    CreateFailed
  | NoSessionLocation
  | NoActiveSession
  | SubmitFailed
  | NoStatementLocation

datatype error =
    SigningError
  | ValueError
  | RequestException
  | JSONDecodeError
  | AttributeError
  | Exception raise_site

text \<open>The fields of \<^verbatim>\<open>EMRServerlessClient\<close> that the methods read or write.\<close>

record client =
  endpoint :: string
  role_arn :: string
  timeout :: int
  session_url :: "string option"

section \<open>The outside world: clock, network and signer\<close>

text \<open>
  Every effect of the client is recorded: a signature computed, an exchange performed
  (method, URL and payload), a blocking sleep. The clock counts seconds; \<open>sent\<close> counts
  the attempts made so far and selects the service's next answer.
\<close>

datatype event =
    Signed string string
  | Exchanged string string "json option"
  | Slept int

record world =
  clock :: int
  sent :: nat
  trace :: "event list"

text \<open>
  The answer to one attempt: the signer fails (an exception that is not a
  \<^verbatim>\<open>RequestException\<close>), the exchange fails at network level (a
  \<^verbatim>\<open>RequestException\<close>), or a response arrives. The service maps the attempt's
  number to the seconds the exchange takes and to its answer.
\<close>

datatype outcome =
    SignFails
  | NetFails
  | Responds response

type_synonym service = "nat \<Rightarrow> nat \<times> outcome"

definition sleep :: "int \<Rightarrow> world \<Rightarrow> world" where
  "sleep d w = w\<lparr>clock := clock w + d, trace := trace w @ [Slept d]\<rparr>"

section \<open>Python truthiness\<close>

text \<open>\<^verbatim>\<open>if data\<close>: a JSON value is falsy when it is None, False, zero or empty.\<close>

fun json_truthy :: "json \<Rightarrow> bool" where
  "json_truthy JNull = False"
| "json_truthy (JBool b) = b"
| "json_truthy (JNum n) = (n \<noteq> 0)"
| "json_truthy (JStr s) = (s \<noteq> [])"
| "json_truthy (JArr xs) = (xs \<noteq> [])"
| "json_truthy (JObj kvs) = (kvs \<noteq> [])"

text \<open>\<^verbatim>\<open>json.dumps(data) if data else None\<close>: the payload of a POST.\<close>

fun payload :: "json option \<Rightarrow> json option" where
  "payload None = None"
| "payload (Some j) = (if json_truthy j then Some j else None)"

text \<open>What the exchange carries: \<^verbatim>\<open>requests.post\<close> is given the payload, get and delete nothing.\<close>

definition carried :: "string \<Rightarrow> json option \<Rightarrow> json option" where
  "carried method data = (if method = ''POST'' then payload data else None)"


text \<open>
  \<^verbatim>\<open>not response\<close>: None is falsy, and the truth value of a
  \<^verbatim>\<open>requests.Response\<close> is its \<open>ok\<close> property, which is false exactly for the
  statuses 400 to 599.
\<close>

definition ok :: "response \<Rightarrow> bool" where
  "ok r = (\<not> (400 \<le> status_code r \<and> status_code r < 600))"

text \<open>\<^verbatim>\<open>not response or response.status_code >= 300\<close>, short-circuit as in Python.\<close>

fun failed_response :: "response option \<Rightarrow> bool" where
  "failed_response None = True"
| "failed_response (Some r) = (\<not> ok r \<or> status_code r \<ge> 300)"

section \<open>Reading a response\<close>

text \<open>\<^verbatim>\<open>response.json()\<close> raises when the body is not JSON.\<close>

fun response_json :: "response \<Rightarrow> error + json" where
  "response_json r = (case body r of None \<Rightarrow> Inl JSONDecodeError | Some j \<Rightarrow> Inr j)"

text \<open>
  \<^verbatim>\<open>.get('state', 'unknown')\<close>: on a dict the value of the key or the default; any other
  JSON value has no \<open>get\<close>.
\<close>

fun get_state :: "json \<Rightarrow> error + json" where
  "get_state (JObj kvs) =
     (case map_of kvs ''state'' of None \<Rightarrow> Inr (JStr ''unknown'') | Some v \<Rightarrow> Inr v)"
| "get_state _ = Inl AttributeError"

section \<open>The dispatcher: \_send\_request\<close>

text \<open>
  One pass through the \<^verbatim>\<open>try\<close> block: build and sign the request, then perform the
  exchange the method selects. An unsupported method raises \<open>ValueError\<close> after signing
  and before any exchange.
\<close>

definition supported :: "string \<Rightarrow> bool" where
  "supported method = (method = ''GET'' \<or> method = ''POST'' \<or> method = ''DELETE'')"

text \<open>The world after the signer was asked and failed.\<close>

definition unsigned :: "world \<Rightarrow> world" where
  "unsigned w = w\<lparr>sent := sent w + 1\<rparr>"

text \<open>The world after the request was signed and the method turned out unsupported.\<close>

definition signed_only :: "string \<Rightarrow> string \<Rightarrow> world \<Rightarrow> world" where
  "signed_only method url w = w\<lparr>sent := sent w + 1, trace := trace w @ [Signed method url]\<rparr>"

text \<open>
  The world after the request was signed and exchanged: the exchange took the seconds the
  service says; only a POST carries the payload.
\<close>

definition exchanged :: "service \<Rightarrow> string \<Rightarrow> string \<Rightarrow> json option \<Rightarrow> world \<Rightarrow> world" where
  "exchanged env method url data w =
     w\<lparr>clock := clock w + int (fst (env (sent w))),
       sent := sent w + 1,
       trace := trace w @ [Signed method url, Exchanged method url (carried method data)]\<rparr>"

definition attempt ::
  "service \<Rightarrow> string \<Rightarrow> string \<Rightarrow> json option \<Rightarrow> world \<Rightarrow> (error + response) \<times> world" where
  "attempt env method url data w =
     (case snd (env (sent w)) of
        SignFails \<Rightarrow> (Inl SigningError, unsigned w)
      | NetFails \<Rightarrow>
          if supported method then (Inl RequestException, exchanged env method url data w)
          else (Inl ValueError, signed_only method url w)
      | Responds r \<Rightarrow>
          if supported method then (Inr r, exchanged env method url data w)
          else (Inl ValueError, signed_only method url w))"

text \<open>
  The \<^verbatim>\<open>while retry_count < max_retries\<close> loop. A 2xx response is returned; a status in
  the retryable list counts a retry, sleeps \<open>2 ** retry_count\<close> and continues; any other
  response is returned. A \<^verbatim>\<open>RequestException\<close> counts a retry and either sleeps or is
  raised again; any other exception propagates. When the loop ends the result is None.
\<close>

function send_loop ::
  "service \<Rightarrow> string \<Rightarrow> string \<Rightarrow> json option \<Rightarrow> int \<Rightarrow> int \<Rightarrow> world
     \<Rightarrow> (error + response option) \<times> world" where
  "send_loop env method url data max_retries retry_count w =
     (if retry_count < max_retries then
        (case attempt env method url data w of
           (Inr r, w1) \<Rightarrow>
             if 200 \<le> status_code r \<and> status_code r < 300 then (Inr (Some r), w1)
             else if status_code r \<in> {429, 500, 502, 503, 504} then
               send_loop env method url data max_retries (retry_count + 1)
                 (sleep (2 ^ nat (retry_count + 1)) w1)
             else (Inr (Some r), w1)
         | (Inl RequestException, w1) \<Rightarrow>
             if retry_count + 1 < max_retries then
               send_loop env method url data max_retries (retry_count + 1)
                 (sleep (2 ^ nat (retry_count + 1)) w1)
             else (Inl RequestException, w1)
         | (Inl e, w1) \<Rightarrow> (Inl e, w1))
      else (Inr None, w))"
  by pat_completeness auto
termination
  by (relation "measure (\<lambda>(env, method, url, data, max_retries, retry_count, w).
        nat (max_retries - retry_count))") auto

definition send_request ::
  "service \<Rightarrow> client \<Rightarrow> string \<Rightarrow> string \<Rightarrow> json option \<Rightarrow> int \<Rightarrow> world
     \<Rightarrow> (error + response option) \<times> world" where
  "send_request env c method path data max_retries w =
     send_loop env method (endpoint c @ path) data max_retries 0 w"

declare send_loop.simps [simp del]

section \<open>Session operations\<close>



text \<open>
  The polling loop of \<^verbatim>\<open>wait_for_session_ready\<close>. The first argument bounds the
  number of iterations; None means the bound was reached before the loop ended.
\<close>

fun wait_loop ::
  "nat \<Rightarrow> service \<Rightarrow> client \<Rightarrow> string \<Rightarrow> nat \<Rightarrow> int \<Rightarrow> world \<Rightarrow> ((error + bool) \<times> world) option" where
  "wait_loop 0 env c url poll_interval start_time w = None"
| "wait_loop (Suc n) env c url poll_interval start_time w =
     (if clock w - start_time < timeout c then
        (case send_request env c ''GET'' url None 3 w of
           (Inl e, w1) \<Rightarrow> Some (Inl e, w1)
         | (Inr None, w1) \<Rightarrow>
             wait_loop n env c url poll_interval start_time (sleep (int poll_interval) w1)
         | (Inr (Some r), w1) \<Rightarrow>
             if \<not> ok r then
               wait_loop n env c url poll_interval start_time (sleep (int poll_interval) w1)
             else (case response_json r of
                     Inl e \<Rightarrow> Some (Inl e, w1)
                   | Inr j \<Rightarrow>
                      (case get_state j of
                         Inl e \<Rightarrow> Some (Inl e, w1)
                       | Inr session_state \<Rightarrow>
                           if session_state = JStr ''idle'' then Some (Inr True, w1)
                           else if session_state \<in> {JStr ''error'', JStr ''dead'', JStr ''killed''}
                           then Some (Inr False, w1)
                           else wait_loop n env c url poll_interval start_time
                                  (sleep (int poll_interval) w1))))
      else Some (Inr False, w))"

definition wait_for_session_ready ::
  "nat \<Rightarrow> service \<Rightarrow> client \<Rightarrow> nat \<Rightarrow> world \<Rightarrow> ((error + bool) \<times> world) option" where
  "wait_for_session_ready fuel env c poll_interval w =
     (case session_url c of
        None \<Rightarrow> Some (Inl (Exception NoActiveSession), w)
      | Some url \<Rightarrow>
          if url = [] then Some (Inl (Exception NoActiveSession), w)
          else wait_loop fuel env c url poll_interval (clock w) w)"

text \<open>\<^verbatim>\<open>list_sessions\<close>: None when the listing request failed.\<close>

definition list_sessions :: "service \<Rightarrow> client \<Rightarrow> world \<Rightarrow> (error + json option) \<times> world" where
  "list_sessions env c w =
     (case send_request env c ''GET'' ''/sessions'' None 3 w of
        (Inl e, w1) \<Rightarrow> (Inl e, w1)
      | (Inr None, w1) \<Rightarrow> (Inr None, w1)
      | (Inr (Some r), w1) \<Rightarrow>
          if failed_response (Some r) then (Inr None, w1)
          else (map_sum id Some (response_json r), w1))"

text \<open>
  \<^verbatim>\<open>delete_session\<close>: False without any request when no session is held; False when
  the DELETE failed; otherwise the session location is cleared and the result is True.
\<close>

definition delete_session :: "service \<Rightarrow> client \<Rightarrow> world \<Rightarrow> (error + bool) \<times> client \<times> world" where
  "delete_session env c w =
     (case session_url c of
        None \<Rightarrow> (Inr False, c, w)
      | Some url \<Rightarrow>
          if url = [] then (Inr False, c, w)
          else (case send_request env c ''DELETE'' url None 3 w of
                  (Inl e, w1) \<Rightarrow> (Inl e, c, w1)
                | (Inr resp, w1) \<Rightarrow>
                    if failed_response resp then (Inr False, c, w1)
                    else (Inr True, c\<lparr>session_url := None\<rparr>, w1)))"

section \<open>Statement operations\<close>

text \<open>
  \<^verbatim>\<open>submit_statement\<close>: POST the code to the session's statements; the result is the
  statement's location and the parsed body.
\<close>

definition submit_statement ::
  "service \<Rightarrow> client \<Rightarrow> string \<Rightarrow> world \<Rightarrow> (error + string \<times> json) \<times> world" where
  "submit_statement env c code w =
     (case session_url c of
        None \<Rightarrow> (Inl (Exception NoActiveSession), w)
      | Some url \<Rightarrow>
          if url = [] then (Inl (Exception NoActiveSession), w)
          else (case send_request env c ''POST'' (url @ ''/statements'')
                       (Some (JObj [(''code'', JStr code)])) 3 w of
                  (Inl e, w1) \<Rightarrow> (Inl e, w1)
                | (Inr None, w1) \<Rightarrow> (Inl (Exception SubmitFailed), w1)
                | (Inr (Some r), w1) \<Rightarrow>
                    if failed_response (Some r) then (Inl (Exception SubmitFailed), w1)
                    else (case headers r ''location'' of
                            None \<Rightarrow> (Inl (Exception NoStatementLocation), w1)
                          | Some statement_location \<Rightarrow>
                              if statement_location = []
                              then (Inl (Exception NoStatementLocation), w1)
                              else (map_sum id (Pair statement_location) (response_json r), w1))))"

text \<open>
  The polling loop of \<^verbatim>\<open>get_statement_result\<close>, bounded like \<open>wait_loop\<close>. The result is
  the statement's record, or None when the loop ended on the clock.
\<close>

fun result_loop ::
  "nat \<Rightarrow> service \<Rightarrow> client \<Rightarrow> string \<Rightarrow> nat \<Rightarrow> int \<Rightarrow> world
     \<Rightarrow> ((error + json option) \<times> world) option" where
  "result_loop 0 env c statement_location poll_interval start_time w = None"
| "result_loop (Suc n) env c statement_location poll_interval start_time w =
     (if clock w - start_time < timeout c then
        (case send_request env c ''GET'' statement_location None 3 w of
           (Inl e, w1) \<Rightarrow> Some (Inl e, w1)
         | (Inr None, w1) \<Rightarrow>
             result_loop n env c statement_location poll_interval start_time
               (sleep (int poll_interval) w1)
         | (Inr (Some r), w1) \<Rightarrow>
             if \<not> ok r then
               result_loop n env c statement_location poll_interval start_time
                 (sleep (int poll_interval) w1)
             else (case response_json r of
                     Inl e \<Rightarrow> Some (Inl e, w1)
                   | Inr statement_data \<Rightarrow>
                      (case get_state statement_data of
                         Inl e \<Rightarrow> Some (Inl e, w1)
                       | Inr statement_state \<Rightarrow>
                           if statement_state = JStr ''available''
                           then Some (Inr (Some statement_data), w1)
                           else if statement_state \<in> {JStr ''error'', JStr ''cancelled''}
                           then Some (Inr (Some statement_data), w1)
                           else result_loop n env c statement_location poll_interval start_time
                                  (sleep (int poll_interval) w1))))
      else Some (Inr None, w))"

definition get_statement_result ::
  "nat \<Rightarrow> service \<Rightarrow> client \<Rightarrow> string \<Rightarrow> nat \<Rightarrow> world
     \<Rightarrow> ((error + json option) \<times> world) option" where
  "get_statement_result fuel env c statement_location poll_interval w =
     result_loop fuel env c statement_location poll_interval (clock w) w"

section \<open>Observations on the trace\<close>

fun is_signed :: "event \<Rightarrow> bool" where
  "is_signed (Signed m u) = True"
| "is_signed _ = False"

fun is_exchanged :: "event \<Rightarrow> bool" where
  "is_exchanged (Exchanged m u d) = True"
| "is_exchanged _ = False"

text \<open>The durations slept, in order.\<close>

fun sleeps :: "event list \<Rightarrow> int list" where
  "sleeps [] = []"
| "sleeps (Slept d # es) = d # sleeps es"
| "sleeps (e # es) = sleeps es"

text \<open>A scripted service: the listed answers in order, then the default answer for ever.\<close>

definition script :: "(nat \<times> outcome) list \<Rightarrow> nat \<times> outcome \<Rightarrow> service" where
  "script answers dflt i = (if i < length answers then answers ! i else dflt)"

text \<open>The events a call added to the trace, given the worlds before and after it.\<close>

definition emitted :: "world \<Rightarrow> world \<Rightarrow> event list" where
  "emitted w w' = drop (length (trace w)) (trace w')"

text \<open>
  The shape of what one call of the dispatcher emits, counting attempts from \<open>n\<close>: each
  attempt is a signature followed by its exchange; a retried attempt is followed by a sleep
  of \<open>2 ^ n\<close> seconds and the next attempt, if any; the last attempt may end after the
  signature (unsupported method) or after the exchange.
\<close>

fun paced :: "nat \<Rightarrow> event list \<Rightarrow> bool" where
  "paced n [] = True"
| "paced n [Signed m u] = True"
| "paced n [Signed m u, Exchanged m' u' d] = (m' = m \<and> u' = u)"
| "paced n (Signed m u # Exchanged m' u' d # Slept t # es) =
     (m' = m \<and> u' = u \<and> t = 2 ^ n \<and> paced (Suc n) es)"
| "paced n es = False"

text \<open>Every exchange is preceded by a signature of its own for the same request.\<close>

fun fresh_signed :: "event list \<Rightarrow> bool" where
  "fresh_signed [] = True"
| "fresh_signed (Signed m u # Exchanged m' u' d # es) = (m' = m \<and> u' = u \<and> fresh_signed es)"
| "fresh_signed (Exchanged m u d # es) = False"
| "fresh_signed (e # es) = fresh_signed es"

text \<open>An answer that makes the dispatcher retry: a response with a status in the retryable list.\<close>

definition retryable_answer :: "nat \<times> outcome \<Rightarrow> bool" where
  "retryable_answer a =
     (case snd a of Responds r \<Rightarrow> status_code r \<in> {429, 500, 502, 503, 504} | _ \<Rightarrow> False)"

section \<open>What a poll observes\<close>

text \<open>
  The state a poll reads from a response: the \<open>state\<close> entry of its JSON body (or
  \<open>unknown\<close>); None when reading it raises.
\<close>

definition observed :: "response \<Rightarrow> json option" where
  "observed r =
     (case body r of
        None \<Rightarrow> None
      | Some j \<Rightarrow> (case get_state j of Inl e \<Rightarrow> None | Inr st \<Rightarrow> Some st))"

text \<open>An answer from which the poll reads the given state: a 2xx response carrying it.\<close>

definition yields :: "nat \<times> outcome \<Rightarrow> json \<Rightarrow> bool" where
  "yields a st =
     (case snd a of
        Responds r \<Rightarrow> 200 \<le> status_code r \<and> status_code r < 300 \<and> observed r = Some st
      | _ \<Rightarrow> False)"

text \<open>The states on which the two polling loops return.\<close>

definition session_final :: "json set" where
  "session_final = {JStr ''idle'', JStr ''error'', JStr ''dead'', JStr ''killed''}"

definition statement_final :: "json set" where
  "statement_final = {JStr ''available'', JStr ''error'', JStr ''cancelled''}"

text \<open>
  An answer after which a polling loop goes on: a 2xx response whose state is not one the
  loop returns on.
\<close>

definition pending :: "json set \<Rightarrow> nat \<times> outcome \<Rightarrow> bool" where
  "pending final a =
     (case snd a of
        Responds r \<Rightarrow>
          200 \<le> status_code r \<and> status_code r < 300
          \<and> (case observed r of None \<Rightarrow> False | Some st \<Rightarrow> st \<notin> final)
      | _ \<Rightarrow> False)"

text \<open>
  An answer that never ends a polling loop: a pending one, or a response with an error
  status 400 to 599 (the poll then has no usable response).
\<close>

definition quiet :: "json set \<Rightarrow> nat \<times> outcome \<Rightarrow> bool" where
  "quiet final a =
     (pending final a
      \<or> (case snd a of
            Responds r \<Rightarrow> 400 \<le> status_code r \<and> status_code r < 600
          | _ \<Rightarrow> False))"

section \<open>Rounds of the dispatcher\<close>

text \<open>
  An answer after which the dispatcher tries again while its budget lasts: a network
  failure, or a response with a status in the retryable list.
\<close>

definition failing_answer :: "nat \<times> outcome \<Rightarrow> bool" where
  "failing_answer a =
     (case snd a of
        SignFails \<Rightarrow> False
      | NetFails \<Rightarrow> True
      | Responds r \<Rightarrow> status_code r \<in> {429, 500, 502, 503, 504})"

text \<open>
  The events of \<open>k\<close> failed attempts numbered from \<open>n\<close>, each with the sleep that
  follows it: signature, exchange, sleep of \<open>2 ^ n\<close> seconds, and so on.
\<close>

fun rounds :: "string \<Rightarrow> string \<Rightarrow> json option \<Rightarrow> nat \<Rightarrow> nat \<Rightarrow> event list" where
  "rounds m u d n 0 = []"
| "rounds m u d n (Suc k) = Signed m u # Exchanged m u d # Slept (2 ^ n) # rounds m u d (Suc n) k"

section \<open>Polls that do not end a polling loop\<close>

text \<open>An answer with an error status 400 to 599 outside the retryable list.\<close>

definition refused_answer :: "nat \<times> outcome \<Rightarrow> bool" where
  "refused_answer a =
     (case snd a of
        Responds r \<Rightarrow>
          400 \<le> status_code r \<and> status_code r < 600
          \<and> status_code r \<notin> {429, 500, 502, 503, 504}
      | _ \<Rightarrow> False)"

text \<open>
  How a poll that does not end the loop goes. \<open>Waiting\<close>: one answer, 2xx with a state
  the loop does not return on. \<open>Refused\<close>: one answer with a non-retryable error status;
  the response is falsy. \<open>Unanswered\<close>: three answers with retryable statuses; the
  dispatcher sleeps 2, 4 and 8 seconds and returns None.
\<close>

datatype poll = Waiting | Refused | Unanswered

text \<open>The attempts a list of such polls consumes.\<close>

fun attempts :: "poll list \<Rightarrow> nat" where
  "attempts [] = 0"
| "attempts (Unanswered # ps) = 3 + attempts ps"
| "attempts (q # ps) = 1 + attempts ps"

text \<open>The service answers the polls of the list in this way, from attempt \<open>i\<close> on.\<close>

fun scripted :: "json set \<Rightarrow> service \<Rightarrow> nat \<Rightarrow> poll list \<Rightarrow> bool" where
  "scripted final env i [] = True"
| "scripted final env i (Waiting # ps) =
     (pending final (env i) \<and> scripted final env (i + 1) ps)"
| "scripted final env i (Refused # ps) =
     (refused_answer (env i) \<and> scripted final env (i + 1) ps)"
| "scripted final env i (Unanswered # ps) =
     (retryable_answer (env i) \<and> retryable_answer (env (i + 1)) \<and> retryable_answer (env (i + 2))
      \<and> scripted final env (i + 3) ps)"

text \<open>
  The seconds these polls take when each is followed by a sleep of \<open>poll_interval\<close>: the
  exchanges, the dispatcher's own sleeps, and the sleeps between polls.
\<close>

fun elapsed :: "service \<Rightarrow> nat \<Rightarrow> nat \<Rightarrow> poll list \<Rightarrow> int" where
  "elapsed env poll_interval i [] = 0"
| "elapsed env poll_interval i (Unanswered # ps) =
     int (fst (env i)) + 2 + int (fst (env (i + 1))) + 4 + int (fst (env (i + 2))) + 8
     + int poll_interval + elapsed env poll_interval (i + 3) ps"
| "elapsed env poll_interval i (q # ps) =
     int (fst (env i)) + int poll_interval + elapsed env poll_interval (i + 1) ps"

section \<open>A test bench\<close>

text \<open>A client as the constructor leaves it, and the same client holding a session.\<close>

definition new_client :: client where
  "new_client = \<lparr>endpoint = ''https://livy.test'', role_arn = ''role'', timeout = 300,
     session_url = None\<rparr>"

definition session_client :: client where
  "session_client = new_client\<lparr>session_url := Some ''/sessions/7''\<rparr>"

text \<open>A response with the given status, no headers and no JSON body.\<close>

definition reply :: "int \<Rightarrow> response" where
  "reply s = \<lparr>status_code = s, headers = Map.empty, body = None\<rparr>"

text \<open>A 200 response with the given JSON body.\<close>

definition reply_json :: "json \<Rightarrow> response" where
  "reply_json j = \<lparr>status_code = 200, headers = Map.empty, body = Some j\<rparr>"

text \<open>A 201 response with a location header and the given JSON body.\<close>

definition created :: "string \<Rightarrow> json \<Rightarrow> response" where
  "created loc j = \<lparr>status_code = 201, headers = [''location'' \<mapsto> loc], body = Some j\<rparr>"

text \<open>A world in which nothing has happened yet.\<close>

definition fresh_world :: world where
  "fresh_world = \<lparr>clock = 0, sent = 0, trace = []\<rparr>"

section \<open>Stepping the dispatcher\<close>

lemma retry_induct:
  assumes step: "\<And>rc w. (\<And>w'. rc < mr \<Longrightarrow> P (rc + 1) w') \<Longrightarrow> P rc w"
  shows "P (rc::int) w"
proof (induction "nat (mr - rc)" arbitrary: rc w)
  case 0
  show ?case
  proof (rule step)
    fix w' assume "rc < mr"
    with 0 show "P (rc + 1) w'" by simp
  qed
next
  case (Suc n)
  show ?case
  proof (rule step)
    fix w' assume "rc < mr"
    with Suc.hyps(2) have "n = nat (mr - (rc + 1))" by simp
    then show "P (rc + 1) w'" by (rule Suc.hyps(1))
  qed
qed

lemma send_loop_stop:
  "\<not> rc < mr \<Longrightarrow> send_loop env m u d mr rc w = (Inr None, w)"
  by (subst send_loop.simps) simp

lemma send_loop_SignFails:
  "rc < mr \<Longrightarrow> snd (env (sent w)) = SignFails \<Longrightarrow>
     send_loop env m u d mr rc w = (Inl SigningError, unsigned w)"
  by (subst send_loop.simps) (simp add: attempt_def)

lemma send_loop_unsupported:
  "rc < mr \<Longrightarrow> snd (env (sent w)) \<noteq> SignFails \<Longrightarrow> \<not> supported m \<Longrightarrow>
     send_loop env m u d mr rc w = (Inl ValueError, signed_only m u w)"
  by (subst send_loop.simps) (cases "snd (env (sent w))"; simp add: attempt_def)

lemma send_loop_NetFails:
  "rc < mr \<Longrightarrow> snd (env (sent w)) = NetFails \<Longrightarrow> supported m \<Longrightarrow>
     send_loop env m u d mr rc w =
       (if rc + 1 < mr
        then send_loop env m u d mr (rc + 1) (sleep (2 ^ nat (rc + 1)) (exchanged env m u d w))
        else (Inl RequestException, exchanged env m u d w))"
  by (subst send_loop.simps) (simp add: attempt_def)

lemma send_loop_Responds:
  "rc < mr \<Longrightarrow> snd (env (sent w)) = Responds r \<Longrightarrow> supported m \<Longrightarrow>
     send_loop env m u d mr rc w =
       (if 200 \<le> status_code r \<and> status_code r < 300 then (Inr (Some r), exchanged env m u d w)
        else if status_code r \<in> {429, 500, 502, 503, 504}
        then send_loop env m u d mr (rc + 1) (sleep (2 ^ nat (rc + 1)) (exchanged env m u d w))
        else (Inr (Some r), exchanged env m u d w))"
  by (subst send_loop.simps) (simp add: attempt_def)

lemma trace_sleep_exchanged:
  "trace (sleep t (exchanged env m u d w)) =
     trace w @ [Signed m u, Exchanged m u (carried m d), Slept t]"
  by (simp add: sleep_def exchanged_def)

lemma send_loop_paced:
  "0 \<le> rc \<Longrightarrow> \<exists>es. trace (snd (send_loop env m u d mr rc w)) = trace w @ es
      \<and> paced (nat (rc + 1)) es
      \<and> length (filter is_exchanged es) \<le> nat (mr - rc)
      \<and> length (filter is_signed es) \<le> nat (mr - rc)"
proof (induction rc w rule: retry_induct[where mr = mr])
  case (1 rc w)
  have n: "nat (rc + 1 + 1) = Suc (nat (rc + 1))" using 1(2) by simp
  show ?case
  proof (cases "rc < mr")
    case False
    then show ?thesis by (simp add: send_loop_stop)
  next
    case True
    let ?w2 = "sleep (2 ^ nat (rc + 1)) (exchanged env m u d w)"
    let ?pre = "[Signed m u, Exchanged m u (carried m d)]"
    from 1(1)[OF True, of ?w2] 1(2)
    obtain es where es: "trace (snd (send_loop env m u d mr (rc + 1) ?w2)) = trace ?w2 @ es"
      "paced (Suc (nat (rc + 1))) es"
      "length (filter is_exchanged es) \<le> nat (mr - (rc + 1))"
      "length (filter is_signed es) \<le> nat (mr - (rc + 1))"
      unfolding n by auto
    have m1: "Suc 0 \<le> nat (mr - rc)" using True by simp
    have m2: "Suc (nat (mr - (rc + 1))) \<le> nat (mr - rc)" using True by simp
    have again: "\<exists>es. trace (snd (send_loop env m u d mr (rc + 1) ?w2)) = trace w @ es
      \<and> paced (nat (rc + 1)) es
      \<and> length (filter is_exchanged es) \<le> nat (mr - rc)
      \<and> length (filter is_signed es) \<le> nat (mr - rc)"
    proof (intro exI conjI)
      show "trace (snd (send_loop env m u d mr (rc + 1) ?w2)) =
              trace w @ (?pre @ Slept (2 ^ nat (rc + 1)) # es)"
        using es(1) by (simp add: trace_sleep_exchanged)
      show "paced (nat (rc + 1)) (?pre @ Slept (2 ^ nat (rc + 1)) # es)"
        using es(2) by simp
      show "length (filter is_exchanged (?pre @ Slept (2 ^ nat (rc + 1)) # es)) \<le> nat (mr - rc)"
        using es(3) m2 by simp
      show "length (filter is_signed (?pre @ Slept (2 ^ nat (rc + 1)) # es)) \<le> nat (mr - rc)"
        using es(4) m2 by simp
    qed
    have once: "\<exists>es. trace (exchanged env m u d w) = trace w @ es
      \<and> paced (nat (rc + 1)) es
      \<and> length (filter is_exchanged es) \<le> nat (mr - rc)
      \<and> length (filter is_signed es) \<le> nat (mr - rc)"
    proof (intro exI conjI)
      show "trace (exchanged env m u d w) = trace w @ ?pre" by (simp add: exchanged_def)
      show "paced (nat (rc + 1)) ?pre" by simp
      show "length (filter is_exchanged ?pre) \<le> nat (mr - rc)" using m1 by simp
      show "length (filter is_signed ?pre) \<le> nat (mr - rc)" using m1 by simp
    qed
    show ?thesis
    proof (cases "snd (env (sent w))")
      case SignFails
      then show ?thesis using True
        by (simp add: send_loop_SignFails unsigned_def)
    next
      case NetFails
      show ?thesis
      proof (cases "supported m")
        case False
        then show ?thesis using True NetFails m1
          by (simp add: send_loop_unsupported signed_only_def)
      next
        case s: True
        show ?thesis using again once
          using True NetFails s by (simp add: send_loop_NetFails)
      qed
    next
      case (Responds r)
      show ?thesis
      proof (cases "supported m")
        case False
        then show ?thesis using True Responds m1
          by (simp add: send_loop_unsupported signed_only_def)
      next
        case s: True
        show ?thesis using again once
          using True Responds s by (simp add: send_loop_Responds)
      qed
    qed
  qed
qed

lemma paced_sleeps:
  "paced n es \<Longrightarrow> sleeps es = map (\<lambda>k. 2 ^ k) [n ..< n + length (sleeps es)]"
  by (induction n es rule: paced.induct) (simp_all add: upt_rec)

lemma paced_fresh: "paced n es \<Longrightarrow> fresh_signed es"
  by (induction n es rule: paced.induct) simp_all

lemma paced_sleeps_le: "paced n es \<Longrightarrow> length (sleeps es) \<le> length (filter is_exchanged es)"
  by (induction n es rule: paced.induct) simp_all

lemma powers_increasing: "sorted_wrt (<) (map (\<lambda>k. (2::int) ^ k) [n ..< m])"
  by (simp add: sorted_wrt_map sorted_wrt_mono_rel[OF _ sorted_wrt_upt])

lemma send_request_emitted:
  "paced 1 (emitted w (snd (send_request env c m p d mr w)))
   \<and> length (filter is_exchanged (emitted w (snd (send_request env c m p d mr w)))) \<le> nat mr
   \<and> length (filter is_signed (emitted w (snd (send_request env c m p d mr w)))) \<le> nat mr"
proof -
  from send_loop_paced[of 0 env m "endpoint c @ p" d mr w]
  obtain es where "trace (snd (send_loop env m (endpoint c @ p) d mr 0 w)) = trace w @ es"
    "paced (Suc 0) es" "length (filter is_exchanged es) \<le> nat mr"
    "length (filter is_signed es) \<le> nat mr" by auto
  then show ?thesis by (simp add: emitted_def send_request_def)
qed

lemma retryable_answerD:
  "retryable_answer (env i) \<Longrightarrow>
     \<exists>r. snd (env i) = Responds r \<and> status_code r \<in> {429, 500, 502, 503, 504}"
  by (cases "snd (env i)") (simp_all add: retryable_answer_def)

lemma sent_sleep_exchanged [simp]: "sent (sleep t (exchanged env m u d w)) = Suc (sent w)"
  by (simp add: sleep_def exchanged_def)

lemma send_loop_all_retryable:
  "0 \<le> rc \<longrightarrow> supported m \<longrightarrow> (\<forall>i < nat (mr - rc). retryable_answer (env (sent w + i))) \<longrightarrow>
     fst (send_loop env m u d mr rc w) = Inr None
     \<and> sent (snd (send_loop env m u d mr rc w)) = sent w + nat (mr - rc)
     \<and> (\<exists>es. trace (snd (send_loop env m u d mr rc w)) = trace w @ es
           \<and> length (filter is_exchanged es) = nat (mr - rc)
           \<and> length (sleeps es) = nat (mr - rc))"
proof (induction rc w rule: retry_induct[where mr = mr])
  case (1 rc w)
  show ?case
  proof (intro impI)
    assume rc: "0 \<le> rc" and s: "supported m"
      and all: "\<forall>i < nat (mr - rc). retryable_answer (env (sent w + i))"
    show "fst (send_loop env m u d mr rc w) = Inr None
     \<and> sent (snd (send_loop env m u d mr rc w)) = sent w + nat (mr - rc)
     \<and> (\<exists>es. trace (snd (send_loop env m u d mr rc w)) = trace w @ es
           \<and> length (filter is_exchanged es) = nat (mr - rc)
           \<and> length (sleeps es) = nat (mr - rc))"
    proof (cases "rc < mr")
      case False
      then show ?thesis by (simp add: send_loop_stop)
    next
      case True
      let ?w2 = "sleep (2 ^ nat (rc + 1)) (exchanged env m u d w)"
      have "retryable_answer (env (sent w))" using all[rule_format, of 0] True by simp
      then obtain r where r: "snd (env (sent w)) = Responds r"
        "status_code r \<in> {429, 500, 502, 503, 504}"
        using retryable_answerD[of env "sent w"] by auto
      have step: "send_loop env m u d mr rc w = send_loop env m u d mr (rc + 1) ?w2"
        using r(2) by (subst send_loop_Responds[of rc mr env w r m u d, OF True r(1) s]) auto
      have k: "nat (mr - rc) = Suc (nat (mr - (rc + 1)))" using True by simp
      have all': "\<forall>i < nat (mr - (rc + 1)). retryable_answer (env (sent ?w2 + i))"
      proof (intro allI impI)
        fix i assume "i < nat (mr - (rc + 1))"
        then have "Suc i < nat (mr - rc)" using k by simp
        then have "retryable_answer (env (sent w + Suc i))" by (rule all[rule_format])
        then show "retryable_answer (env (sent ?w2 + i))" by simp
      qed
      from 1[OF True, of ?w2] rc s all'
      obtain es where ih: "fst (send_loop env m u d mr (rc + 1) ?w2) = Inr None"
        "sent (snd (send_loop env m u d mr (rc + 1) ?w2)) = sent ?w2 + nat (mr - (rc + 1))"
        "trace (snd (send_loop env m u d mr (rc + 1) ?w2)) = trace ?w2 @ es"
        "length (filter is_exchanged es) = nat (mr - (rc + 1))"
        "length (sleeps es) = nat (mr - (rc + 1))" by auto
      have "trace (snd (send_loop env m u d mr rc w)) =
              trace w @ ([Signed m u, Exchanged m u (carried m d), Slept (2 ^ nat (rc + 1))] @ es)"
        using ih(3) by (simp add: step trace_sleep_exchanged)
      moreover have "length (filter is_exchanged
          ([Signed m u, Exchanged m u (carried m d), Slept (2 ^ nat (rc + 1))] @ es)) = nat (mr - rc)"
        using ih(4) k by simp
      moreover have "length (sleeps
          ([Signed m u, Exchanged m u (carried m d), Slept (2 ^ nat (rc + 1))] @ es)) = nat (mr - rc)"
        using ih(5) k by simp
      ultimately have "\<exists>es. trace (snd (send_loop env m u d mr rc w)) = trace w @ es
           \<and> length (filter is_exchanged es) = nat (mr - rc)
           \<and> length (sleeps es) = nat (mr - rc)" by blast
      then show ?thesis using ih(1,2) k by (simp add: step)
    qed
  qed
qed

section \<open>Evaluating runs\<close>

text \<open>The definitions to unfold when a run is evaluated on the test bench.\<close>

lemmas run_simps =
  send_request_def send_loop.simps attempt_def supported_def exchanged_def unsigned_def
  signed_only_def sleep_def carried_def script_def reply_def reply_json_def fresh_world_def
  new_client_def session_client_def emitted_def

section \<open>The dispatcher's retry budget\<close>

text \<open>
  C1, as amended. When every answer within the budget carries a retryable status, the
  dispatcher performs exactly \<open>max_retries\<close> exchanges and then returns None, the absent
  result: neither an exception nor the last failing response.
\<close>

theorem C1_exhausted:
  assumes "supported method"
    and "\<forall>i < nat max_retries. retryable_answer (env (sent w + i))"
  shows "fst (send_request env c method path data max_retries w) = Inr None
    \<and> length (filter is_exchanged (emitted w (snd (send_request env c method path data max_retries w))))
        = nat max_retries"
proof -
  from send_loop_all_retryable[of 0 "method" "max_retries" env w "endpoint c @ path" "data"] assms
  obtain es where "fst (send_loop env method (endpoint c @ path) data max_retries 0 w) = Inr None"
    "trace (snd (send_loop env method (endpoint c @ path) data max_retries 0 w)) = trace w @ es"
    "length (filter is_exchanged es) = nat max_retries" by auto
  then show ?thesis by (simp add: send_request_def emitted_def)
qed

text \<open>C1, witness: three answers 503 under the default budget of three.\<close>

theorem C1_exhausted_witness:
  "supported ''GET''
   \<and> fst (send_request (script [] (0, Responds (reply 503))) new_client ''GET'' ''/sessions'' None 3
        fresh_world) = Inr None
   \<and> length (filter is_exchanged (emitted fresh_world
        (snd (send_request (script [] (0, Responds (reply 503))) new_client ''GET'' ''/sessions'' None 3
           fresh_world)))) = nat 3"
proof -
  have h1: "supported ''GET''" by (simp add: supported_def)
  have h2: "\<forall>i < nat 3. retryable_answer (script [] (0, Responds (reply 503)) (sent fresh_world + i))"
    by (simp add: script_def retryable_answer_def reply_def)
  show ?thesis using h1 h2 C1_exhausted[OF h1 h2] by blast
qed

text \<open>
  C1, counterexample to the claim as stated: with every answer 503 and \<open>max_retries = 3\<close>
  the result is None and not the final 503 response.
\<close>

theorem C1_counterexample:
  "fst (send_request (script [] (0, Responds (reply 503))) new_client ''GET'' ''/sessions'' None 3
        fresh_world) = Inr None
   \<and> fst (send_request (script [] (0, Responds (reply 503))) new_client ''GET'' ''/sessions'' None 3
        fresh_world) \<noteq> Inr (Some (reply 503))"
  by (simp add: run_simps)

text \<open>
  C2, as amended. One call of the dispatcher performs at most \<open>max_retries\<close> exchanges and
  computes at most \<open>max_retries\<close> signatures (attempts 1 to \<open>max_retries\<close>, none when
  \<open>max_retries\<close> is not positive), and every exchange directly follows a signature computed
  for it.
\<close>

theorem C2_attempts:
  "length (filter is_exchanged (emitted w (snd (send_request env c method path data max_retries w))))
     \<le> nat max_retries
   \<and> length (filter is_signed (emitted w (snd (send_request env c method path data max_retries w))))
     \<le> nat max_retries
   \<and> fresh_signed (emitted w (snd (send_request env c method path data max_retries w)))"
  using send_request_emitted[of w env c "method" "path" "data" "max_retries"]
    paced_fresh[of 1 "emitted w (snd (send_request env c method path data max_retries w))"]
  by simp

text \<open>
  C2, counterexample to the claim as stated: with \<open>max_retries = 1\<close> and the answers
  503, 200 only one exchange is performed and the result is None; attempt number
  \<open>max_retries + 1\<close>, which would have fetched the 200, never takes place.
\<close>

theorem C2_counterexample:
  "length (filter is_exchanged (emitted fresh_world
      (snd (send_request (script [(0, Responds (reply 503))] (0, Responds (reply 200)))
              new_client ''GET'' ''/sessions'' None 1 fresh_world)))) = 1
   \<and> fst (send_request (script [(0, Responds (reply 503))] (0, Responds (reply 200)))
              new_client ''GET'' ''/sessions'' None 1 fresh_world) = Inr None"
  by (simp add: run_simps)

text \<open>
  C3, as amended. For every \<open>max_retries\<close> of at least 3 and a supported method, the
  answers 503, 503, 200 make the dispatcher return the 200 response after exactly two
  sleeps, of 2 and 4 seconds.
\<close>

theorem C3_three_tries:
  assumes "3 \<le> max_retries" and "supported meth"
    and "snd (env (sent w)) = Responds r1" and "status_code r1 = 503"
    and "snd (env (sent w + 1)) = Responds r2" and "status_code r2 = 503"
    and "snd (env (sent w + 2)) = Responds r3" and "status_code r3 = 200"
  shows "fst (send_request env c meth path data max_retries w) = Inr (Some r3)
    \<and> sleeps (emitted w (snd (send_request env c meth path data max_retries w))) = [2, 4]"
proof -
  let ?u = "endpoint c @ path"
  let ?w1 = "sleep (2 ^ nat (0 + 1)) (exchanged env meth ?u data w)"
  let ?w2 = "sleep (2 ^ nat (0 + 1 + 1)) (exchanged env meth ?u data ?w1)"
  have a: "(0::int) < max_retries" "(0::int) + 1 < max_retries" "(0::int) + 1 + 1 < max_retries"
    using assms(1) by simp_all
  have s1: "snd (env (sent ?w1)) = Responds r2" using assms(5) by simp
  have s2: "snd (env (sent ?w2)) = Responds r3" using assms(7) by simp
  have e1: "send_loop env meth ?u data max_retries 0 w =
          send_loop env meth ?u data max_retries (0 + 1) ?w1"
    by (subst send_loop_Responds[of 0 "max_retries" env w r1 meth ?u "data", OF a(1) assms(3) assms(2)])
       (simp add: assms(4))
  have e2: "send_loop env meth ?u data max_retries (0 + 1) ?w1 =
          send_loop env meth ?u data max_retries (0 + 1 + 1) ?w2"
    by (subst send_loop_Responds[of "0 + 1" "max_retries" env ?w1 r2 meth ?u "data", OF a(2) s1 assms(2)])
       (simp add: assms(6))
  have e3: "send_loop env meth ?u data max_retries (0 + 1 + 1) ?w2 =
          (Inr (Some r3), exchanged env meth ?u data ?w2)"
    by (subst send_loop_Responds[of "0 + 1 + 1" "max_retries" env ?w2 r3 meth ?u "data", OF a(3) s2 assms(2)])
       (simp add: assms(8))
  have run: "send_loop env meth ?u data max_retries 0 w =
          (Inr (Some r3), exchanged env meth ?u data ?w2)"
    by (simp only: e1 e2 e3)
  have tr: "trace (exchanged env meth ?u data ?w2) =
      trace w @ [Signed meth ?u, Exchanged meth ?u (carried meth data), Slept 2,
                 Signed meth ?u, Exchanged meth ?u (carried meth data), Slept 4,
                 Signed meth ?u, Exchanged meth ?u (carried meth data)]"
    by (simp add: exchanged_def sleep_def)
  show ?thesis
    unfolding send_request_def emitted_def run fst_conv snd_conv tr by simp
qed

text \<open>C3, witness: the answers 503, 503, 200 under \<open>max_retries = 3\<close>.\<close>

theorem C3_three_tries_witness:
  "(3::int) \<le> 3 \<and> supported ''GET''
   \<and> fst (send_request
          (script [(0, Responds (reply 503)), (0, Responds (reply 503))] (0, Responds (reply 200)))
          new_client ''GET'' ''/sessions'' None 3 fresh_world) = Inr (Some (reply 200))
   \<and> sleeps (emitted fresh_world (snd (send_request
          (script [(0, Responds (reply 503)), (0, Responds (reply 503))] (0, Responds (reply 200)))
          new_client ''GET'' ''/sessions'' None 3 fresh_world))) = [2, 4]"
  using C3_three_tries[where max_retries = 3 and meth = "''GET''"
      and env = "script [(0, Responds (reply 503)), (0, Responds (reply 503))] (0, Responds (reply 200))"
      and w = fresh_world and ?r1.0 = "reply 503" and ?r2.0 = "reply 503" and ?r3.0 = "reply 200"
      and c = new_client and path = "''/sessions''" and data = None]
  by (simp add: supported_def script_def fresh_world_def reply_def)

text \<open>
  C3, counterexample to the claim as stated: with \<open>max_retries = 2\<close> the dispatcher
  sleeps twice and returns None; the 200 response is never fetched.
\<close>

theorem C3_counterexample:
  "fst (send_request
          (script [(0, Responds (reply 503)), (0, Responds (reply 503))] (0, Responds (reply 200)))
          new_client ''GET'' ''/sessions'' None 2 fresh_world) = Inr None
   \<and> sleeps (emitted fresh_world (snd (send_request
          (script [(0, Responds (reply 503)), (0, Responds (reply 503))] (0, Responds (reply 200)))
          new_client ''GET'' ''/sessions'' None 2 fresh_world))) = [2, 4]"
  by (simp add: run_simps)

section \<open>Network failures\<close>

lemma send_loop_all_netfails:
  "0 \<le> rc \<longrightarrow> rc < mr \<longrightarrow> supported m \<longrightarrow>
   (\<forall>i < nat (mr - rc). snd (env (sent w + i)) = NetFails) \<longrightarrow>
     fst (send_loop env m u d mr rc w) = Inl RequestException
     \<and> (\<exists>es. trace (snd (send_loop env m u d mr rc w)) = trace w @ es
           \<and> length (filter is_exchanged es) = nat (mr - rc)
           \<and> sleeps es = map (\<lambda>n. 2 ^ n) [nat rc + 1 ..< nat mr]
           \<and> es \<noteq> [] \<and> is_exchanged (last es))"
proof (induction rc w rule: retry_induct[where mr = mr])
  case (1 rc w)
  show ?case
  proof (intro impI)
    assume rc: "0 \<le> rc" and True: "rc < mr" and s: "supported m"
      and all: "\<forall>i < nat (mr - rc). snd (env (sent w + i)) = NetFails"
    let ?w1 = "exchanged env m u d w"
    let ?w2 = "sleep (2 ^ nat (rc + 1)) ?w1"
    let ?pre = "[Signed m u, Exchanged m u (carried m d)]"
    have nf: "snd (env (sent w)) = NetFails" using all[rule_format, of 0] True by simp
    note step = send_loop_NetFails[of rc mr env w m u d, OF True nf s]
    show "fst (send_loop env m u d mr rc w) = Inl RequestException
     \<and> (\<exists>es. trace (snd (send_loop env m u d mr rc w)) = trace w @ es
           \<and> length (filter is_exchanged es) = nat (mr - rc)
           \<and> sleeps es = map (\<lambda>n. 2 ^ n) [nat rc + 1 ..< nat mr]
           \<and> es \<noteq> [] \<and> is_exchanged (last es))"
    proof (cases "rc + 1 < mr")
      case False
      then have mr: "mr = rc + 1" using True by simp
      have e: "send_loop env m u d mr rc w = (Inl RequestException, ?w1)"
        using False by (simp add: step)
      have "trace ?w1 = trace w @ ?pre" by (simp add: exchanged_def)
      moreover have "length (filter is_exchanged ?pre) = nat (mr - rc)" using mr by simp
      moreover have "sleeps ?pre = map (\<lambda>n. 2 ^ n) [nat rc + 1 ..< nat mr]"
        using mr rc by (simp add: nat_add_distrib)
      moreover have "?pre \<noteq> [] \<and> is_exchanged (last ?pre)" by simp
      ultimately show ?thesis unfolding e fst_conv snd_conv by blast
    next
      case more: True
      have e: "send_loop env m u d mr rc w = send_loop env m u d mr (rc + 1) ?w2"
        using more by (simp add: step)
      have k: "nat (mr - rc) = Suc (nat (mr - (rc + 1)))" using True by simp
      have all': "\<forall>i < nat (mr - (rc + 1)). snd (env (sent ?w2 + i)) = NetFails"
      proof (intro allI impI)
        fix i assume "i < nat (mr - (rc + 1))"
        then have "Suc i < nat (mr - rc)" using k by simp
        then have "snd (env (sent w + Suc i)) = NetFails" by (rule all[rule_format])
        then show "snd (env (sent ?w2 + i)) = NetFails" by simp
      qed
      from 1[OF True, of ?w2] rc more s all'
      obtain es where ih: "fst (send_loop env m u d mr (rc + 1) ?w2) = Inl RequestException"
        "trace (snd (send_loop env m u d mr (rc + 1) ?w2)) = trace ?w2 @ es"
        "length (filter is_exchanged es) = nat (mr - (rc + 1))"
        "sleeps es = map (\<lambda>n. 2 ^ n) [nat (rc + 1) + 1 ..< nat mr]"
        "es \<noteq> []" "is_exchanged (last es)" by auto
      let ?es = "?pre @ Slept (2 ^ nat (rc + 1)) # es"
      have n1: "nat (rc + 1) = nat rc + 1" using rc by (simp add: nat_add_distrib)
      have lt: "nat rc + 1 < nat mr" using rc more by simp
      have "trace (snd (send_loop env m u d mr (rc + 1) ?w2)) = trace w @ ?es"
        using ih(2) by (simp add: trace_sleep_exchanged)
      moreover have "length (filter is_exchanged ?es) = nat (mr - rc)"
        using ih(3) k by simp
      moreover have "sleeps ?es = map (\<lambda>n. 2 ^ n) [nat rc + 1 ..< nat mr]"
        using ih(4) lt unfolding n1 by (simp add: upt_conv_Cons)
      moreover have "?es \<noteq> [] \<and> is_exchanged (last ?es)"
        using ih(5,6) by simp
      ultimately show ?thesis unfolding e using ih(1) by blast
    qed
  qed
qed

text \<open>
  C5. When at least one attempt is made (\<open>max_retries\<close> at least 1) and every exchange
  within the budget fails at network level, the dispatcher performs \<open>max_retries\<close>
  exchanges, sleeps \<open>2 ^ n\<close> seconds after the n-th failure for every n below
  \<open>max_retries\<close>, and then raises the transport error again; the last thing it does is the
  final exchange, with no sleep after it.
\<close>

theorem C5_network_failures:
  assumes "1 \<le> max_retries" and "supported meth"
    and "\<forall>i < nat max_retries. snd (env (sent w + i)) = NetFails"
  shows "fst (send_request env c meth path data max_retries w) = Inl RequestException
    \<and> length (filter is_exchanged (emitted w (snd (send_request env c meth path data max_retries w))))
        = nat max_retries
    \<and> sleeps (emitted w (snd (send_request env c meth path data max_retries w)))
        = map (\<lambda>n. 2 ^ n) [1 ..< nat max_retries]
    \<and> is_exchanged (last (emitted w (snd (send_request env c meth path data max_retries w))))"
proof -
  from send_loop_all_netfails[of 0 max_retries meth env w "endpoint c @ path" data] assms
  obtain es where
    "fst (send_loop env meth (endpoint c @ path) data max_retries 0 w) = Inl RequestException"
    "trace (snd (send_loop env meth (endpoint c @ path) data max_retries 0 w)) = trace w @ es"
    "length (filter is_exchanged es) = nat max_retries"
    "sleeps es = map (\<lambda>n. 2 ^ n) [1 ..< nat max_retries]"
    "is_exchanged (last es)" by auto
  then show ?thesis by (simp add: send_request_def emitted_def)
qed

text \<open>C5, witness: a dead network under the default budget of three.\<close>

theorem C5_network_failures_witness:
  "fst (send_request (script [] (0, NetFails)) new_client ''GET'' ''/sessions'' None 3 fresh_world)
     = Inl RequestException
   \<and> length (filter is_exchanged (emitted fresh_world
        (snd (send_request (script [] (0, NetFails)) new_client ''GET'' ''/sessions'' None 3
           fresh_world)))) = 3
   \<and> sleeps (emitted fresh_world
        (snd (send_request (script [] (0, NetFails)) new_client ''GET'' ''/sessions'' None 3
           fresh_world))) = [2, 4]
   \<and> is_exchanged (last (emitted fresh_world
        (snd (send_request (script [] (0, NetFails)) new_client ''GET'' ''/sessions'' None 3
           fresh_world))))"
proof -
  have h1: "(1::int) \<le> 3" by simp
  have h2: "supported ''GET''" by (simp add: supported_def)
  have h3: "\<forall>i < nat 3. snd (script [] (0, NetFails) (sent fresh_world + i)) = NetFails"
    by (simp add: script_def)
  have u: "map ((^) (2::int)) [Suc 0 ..< 3] = [2, 4]" by code_simp
  show ?thesis
    using C5_network_failures[of 3 "''GET''" "script [] (0, NetFails)" fresh_world new_client
        "''/sessions''" None, OF h1 h2 h3]
    by (simp add: u)
qed

section \<open>The session and statement operations\<close>

lemma send_request_2xx:
  assumes "snd (env (sent w)) = Responds r" and "200 \<le> status_code r" and "status_code r < 300"
    and "supported m" and "0 < mr"
  shows "send_request env c m p d mr w = (Inr (Some r), exchanged env m (endpoint c @ p) d w)"
  unfolding send_request_def
  by (subst send_loop_Responds[of 0 mr env w r m "endpoint c @ p" d, OF assms(5) assms(1) assms(4)])
     (simp add: assms(2,3))

text \<open>
  C7. With a session held and a 2xx answer to the DELETE, the first \<open>delete_session\<close>
  returns True and clears the session location; a second call, whatever the service would
  answer, returns False without raising and without touching the client or the world.
\<close>

theorem C7_delete_twice:
  assumes "session_url c = Some url" and "url \<noteq> []"
    and "snd (env (sent w)) = Responds r" and "200 \<le> status_code r" and "status_code r < 300"
  shows "delete_session env c w =
           (Inr True, c\<lparr>session_url := None\<rparr>, exchanged env ''DELETE'' (endpoint c @ url) None w)
    \<and> delete_session env' (c\<lparr>session_url := None\<rparr>)
           (exchanged env ''DELETE'' (endpoint c @ url) None w) =
           (Inr False, c\<lparr>session_url := None\<rparr>, exchanged env ''DELETE'' (endpoint c @ url) None w)"
proof -
  have s: "supported ''DELETE''" by (simp add: supported_def)
  have "send_request env c ''DELETE'' url None 3 w =
          (Inr (Some r), exchanged env ''DELETE'' (endpoint c @ url) None w)"
    using assms(3,4,5) s by (simp add: send_request_2xx)
  then show ?thesis using assms by (simp add: delete_session_def ok_def)
qed

text \<open>C7, witness: a DELETE answered 204, then a second call against a dead network.\<close>

theorem C7_delete_twice_witness:
  "delete_session (script [] (0, Responds (reply 204))) session_client fresh_world =
     (Inr True, session_client\<lparr>session_url := None\<rparr>,
      exchanged (script [] (0, Responds (reply 204))) ''DELETE''
        (endpoint session_client @ ''/sessions/7'') None fresh_world)
   \<and> delete_session (script [] (0, NetFails)) (session_client\<lparr>session_url := None\<rparr>)
       (exchanged (script [] (0, Responds (reply 204))) ''DELETE''
          (endpoint session_client @ ''/sessions/7'') None fresh_world) =
     (Inr False, session_client\<lparr>session_url := None\<rparr>,
      exchanged (script [] (0, Responds (reply 204))) ''DELETE''
        (endpoint session_client @ ''/sessions/7'') None fresh_world)"
proof -
  have h1: "session_url session_client = Some ''/sessions/7''" by (simp add: run_simps)
  have h2: "''/sessions/7'' \<noteq> []" by simp
  have h3: "snd (script [] (0, Responds (reply 204)) (sent fresh_world)) = Responds (reply 204)"
    by (simp add: script_def)
  have h4: "200 \<le> status_code (reply 204)" and h5: "status_code (reply 204) < 300"
    by (simp_all add: reply_def)
  show ?thesis
    using C7_delete_twice[of session_client "''/sessions/7''" "script [] (0, Responds (reply 204))"
        fresh_world "reply 204" "script [] (0, NetFails)", OF h1 h2 h3 h4 h5]
    by simp
qed

text \<open>
  C9. With a session held and a positive timeout, when the POST of the statement is
  answered 2xx with a location header and a JSON body, and the first poll is answered 2xx
  with a record whose state is available and whose result is 2, then \<open>submit_statement\<close>
  returns the location and \<open>get_statement_result\<close> returns that record.
\<close>

theorem C9_round_trip:
  assumes "session_url c = Some url" and "url \<noteq> []" and "0 < timeout c"
    and "snd (env (sent w)) = Responds r0"
    and "200 \<le> status_code r0" and "status_code r0 < 300"
    and "headers r0 ''location'' = Some loc" and "loc \<noteq> []" and "body r0 = Some j0"
    and "snd (env (sent w + 1)) = Responds r1"
    and "200 \<le> status_code r1" and "status_code r1 < 300"
    and "body r1 = Some (JObj kvs)"
    and "map_of kvs ''state'' = Some (JStr ''available'')"
    and "map_of kvs ''result'' = Some (JNum 2)"
  shows "submit_statement env c ''1 + 1'' w =
           (Inr (loc, j0),
            exchanged env ''POST'' (endpoint c @ url @ ''/statements'')
              (Some (JObj [(''code'', JStr ''1 + 1'')])) w)
    \<and> get_statement_result (Suc fuel) env c loc poll_interval
         (exchanged env ''POST'' (endpoint c @ url @ ''/statements'')
              (Some (JObj [(''code'', JStr ''1 + 1'')])) w) =
         Some (Inr (Some (JObj kvs)),
               exchanged env ''GET'' (endpoint c @ loc) None
                 (exchanged env ''POST'' (endpoint c @ url @ ''/statements'')
                    (Some (JObj [(''code'', JStr ''1 + 1'')])) w))
    \<and> get_state (JObj kvs) = Inr (JStr ''available'')
    \<and> map_of kvs ''result'' = Some (JNum 2)"
proof -
  let ?w1 = "exchanged env ''POST'' (endpoint c @ url @ ''/statements'')
              (Some (JObj [(''code'', JStr ''1 + 1'')])) w"
  have sp: "supported ''POST''" and sg: "supported ''GET''" by (simp_all add: supported_def)
  have post: "send_request env c ''POST'' (url @ ''/statements'')
      (Some (JObj [(''code'', JStr ''1 + 1'')])) 3 w = (Inr (Some r0), ?w1)"
    using assms(4,5,6) sp by (simp add: send_request_2xx)
  have submit: "submit_statement env c ''1 + 1'' w = (Inr (loc, j0), ?w1)"
    using assms(1,2,5,6,7,8,9) by (simp add: submit_statement_def post ok_def)
  have next_answer: "snd (env (sent ?w1)) = Responds r1"
    using assms(10) by (simp add: exchanged_def)
  have get: "send_request env c ''GET'' loc None 3 ?w1 =
      (Inr (Some r1), exchanged env ''GET'' (endpoint c @ loc) None ?w1)"
    using next_answer assms(11,12) sg by (simp add: send_request_2xx)
  have poll: "get_statement_result (Suc fuel) env c loc poll_interval ?w1 =
      Some (Inr (Some (JObj kvs)), exchanged env ''GET'' (endpoint c @ loc) None ?w1)"
    using assms(3,11,12,13,14) by (simp add: get_statement_result_def get ok_def)
  show ?thesis using submit poll assms(14,15) by simp
qed

text \<open>
  C9, witness: the service answers the POST with 201 and the statement's location, and the
  first poll with state available and result 2.
\<close>

theorem C9_round_trip_witness:
  "fst (submit_statement
     (script [(0, Responds (created ''/sessions/7/statements/0'' (JObj [(''id'', JNum 0)]))),
              (0, Responds (reply_json (JObj [(''state'', JStr ''available''), (''result'', JNum 2)])))]
        (0, NetFails))
     session_client ''1 + 1'' fresh_world) =
     Inr (''/sessions/7/statements/0'', JObj [(''id'', JNum 0)])
   \<and> map_option fst (get_statement_result 1
     (script [(0, Responds (created ''/sessions/7/statements/0'' (JObj [(''id'', JNum 0)]))),
              (0, Responds (reply_json (JObj [(''state'', JStr ''available''), (''result'', JNum 2)])))]
        (0, NetFails))
     session_client ''/sessions/7/statements/0'' 2
     (snd (submit_statement
       (script [(0, Responds (created ''/sessions/7/statements/0'' (JObj [(''id'', JNum 0)]))),
                (0, Responds (reply_json (JObj [(''state'', JStr ''available''), (''result'', JNum 2)])))]
          (0, NetFails))
       session_client ''1 + 1'' fresh_world))) =
     Some (Inr (Some (JObj [(''state'', JStr ''available''), (''result'', JNum 2)])))"
proof -
  let ?env = "script [(0, Responds (created ''/sessions/7/statements/0'' (JObj [(''id'', JNum 0)]))),
              (0, Responds (reply_json (JObj [(''state'', JStr ''available''), (''result'', JNum 2)])))]
        (0, NetFails)"
  have r: "submit_statement ?env session_client ''1 + 1'' fresh_world =
           (Inr (''/sessions/7/statements/0'', JObj [(''id'', JNum 0)]),
            exchanged ?env ''POST'' (endpoint session_client @ ''/sessions/7'' @ ''/statements'')
              (Some (JObj [(''code'', JStr ''1 + 1'')])) fresh_world)
    \<and> get_statement_result (Suc 0) ?env session_client ''/sessions/7/statements/0'' 2
         (exchanged ?env ''POST'' (endpoint session_client @ ''/sessions/7'' @ ''/statements'')
              (Some (JObj [(''code'', JStr ''1 + 1'')])) fresh_world) =
         Some (Inr (Some (JObj [(''state'', JStr ''available''), (''result'', JNum 2)])),
               exchanged ?env ''GET'' (endpoint session_client @ ''/sessions/7/statements/0'') None
                 (exchanged ?env ''POST'' (endpoint session_client @ ''/sessions/7'' @ ''/statements'')
                    (Some (JObj [(''code'', JStr ''1 + 1'')])) fresh_world))
    \<and> get_state (JObj [(''state'', JStr ''available''), (''result'', JNum 2)]) = Inr (JStr ''available'')
    \<and> map_of [(''state'', JStr ''available''), (''result'', JNum 2)] ''result'' = Some (JNum 2)"
    by (rule C9_round_trip[where ?r0.0 = "created ''/sessions/7/statements/0'' (JObj [(''id'', JNum 0)])"
          and ?r1.0 = "reply_json (JObj [(''state'', JStr ''available''), (''result'', JNum 2)])"])
       (simp_all add: session_client_def new_client_def script_def fresh_world_def created_def
          reply_json_def)
  show ?thesis using r by simp
qed

section \<open>The polling loops\<close>

lemma pendingD:
  "pending final a \<Longrightarrow>
     \<exists>r j st. snd a = Responds r \<and> 200 \<le> status_code r \<and> status_code r < 300
       \<and> body r = Some j \<and> get_state j = Inr st \<and> st \<notin> final"
  by (cases "snd a")
     (auto simp: pending_def observed_def split: option.splits sum.splits)

lemma yieldsD:
  "yields a st \<Longrightarrow>
     \<exists>r j. snd a = Responds r \<and> 200 \<le> status_code r \<and> status_code r < 300
       \<and> body r = Some j \<and> get_state j = Inr st"
  by (cases "snd a")
     (auto simp: yields_def observed_def split: option.splits sum.splits)

lemma clock_sleep_exchanged [simp]:
  "clock (sleep t (exchanged env m u d w)) = clock w + int (fst (env (sent w))) + t"
  by (simp add: sleep_def exchanged_def)

lemma wait_loop_reaches:
  assumes f: "st \<in> session_final"
  shows "(\<forall>i < k. pending session_final (env (sent w + i))) \<Longrightarrow>
   clock w - start + (\<Sum>i < k. int (fst (env (sent w + i))) + int p) < timeout c \<Longrightarrow>
   yields (env (sent w + k)) st \<Longrightarrow>
   map_option fst (wait_loop (Suc (k + n)) env c url p start w) = Some (Inr (st = JStr ''idle''))"
proof (induction k arbitrary: w)
  case 0
  from yieldsD[of "env (sent w)" st] 0(3)
  obtain r j where r: "snd (env (sent w)) = Responds r" "200 \<le> status_code r"
    "status_code r < 300" "body r = Some j" "get_state j = Inr st" by auto
  have sg: "supported ''GET''" by (simp add: supported_def)
  have send: "send_request env c ''GET'' url None 3 w =
      (Inr (Some r), exchanged env ''GET'' (endpoint c @ url) None w)"
    using r(1,2,3) sg by (simp add: send_request_2xx)
  have t: "clock w - start < timeout c" using 0(2) by simp
  show ?case using t r f by (auto simp: send ok_def session_final_def)
next
  case (Suc k)
  have "pending session_final (env (sent w))" using Suc.prems(1)[rule_format, of 0] by simp
  from pendingD[OF this]
  obtain r j s where r: "snd (env (sent w)) = Responds r" "200 \<le> status_code r"
    "status_code r < 300" "body r = Some j" "get_state j = Inr s" "s \<notin> session_final" by auto
  have sg: "supported ''GET''" by (simp add: supported_def)
  let ?w1 = "exchanged env ''GET'' (endpoint c @ url) None w"
  let ?w2 = "sleep (int p) ?w1"
  have send: "send_request env c ''GET'' url None 3 w = (Inr (Some r), ?w1)"
    using r(1,2,3) sg by (simp add: send_request_2xx)
  have nonneg: "0 \<le> (\<Sum>i < Suc k. int (fst (env (sent w + i))) + int p)"
    by (rule sum_nonneg) simp
  have t: "clock w - start < timeout c" using Suc.prems(2) nonneg by linarith
  have step: "wait_loop (Suc (Suc k + n)) env c url p start w =
      wait_loop (Suc (k + n)) env c url p start ?w2"
    using t r by (auto simp: send ok_def session_final_def)
  have p': "\<forall>i < k. pending session_final (env (sent ?w2 + i))"
    using Suc.prems(1) by auto
  have split: "(\<Sum>i < Suc k. int (fst (env (sent w + i))) + int p) =
      int (fst (env (sent w))) + int p + (\<Sum>i < k. int (fst (env (sent ?w2 + i))) + int p)"
    unfolding sum.lessThan_Suc_shift[of "\<lambda>i. int (fst (env (sent w + i))) + int p" k] by simp
  have c': "clock ?w2 - start + (\<Sum>i < k. int (fst (env (sent ?w2 + i))) + int p) < timeout c"
    using Suc.prems(2) unfolding split by simp
  have y': "yields (env (sent ?w2 + k)) st" using Suc.prems(3) by simp
  show ?case unfolding step by (rule Suc.IH[OF p' c' y'])
qed

text \<open>
  C8. Let the first \<open>k\<close> polls of \<open>wait_for_session_ready\<close> each be answered 2xx with a
  state other than idle, error, dead and killed, and let the next poll start before the
  timeout (the exchanges and sleeps so far took less than \<open>timeout\<close> seconds). If that poll
  yields idle the result is True; if it yields error, dead or killed the result is False,
  returned as a value.
\<close>

theorem C8_first_final_poll:
  assumes "session_url c = Some url" and "url \<noteq> []"
    and "\<forall>i < k. pending session_final (env (sent w + i))"
    and "(\<Sum>i < k. int (fst (env (sent w + i))) + int poll_interval) < timeout c"
    and "k < fuel"
  shows "(yields (env (sent w + k)) (JStr ''idle'')
          \<longrightarrow> map_option fst (wait_for_session_ready fuel env c poll_interval w) = Some (Inr True))
    \<and> (st \<in> {JStr ''error'', JStr ''dead'', JStr ''killed''} \<and> yields (env (sent w + k)) st
          \<longrightarrow> map_option fst (wait_for_session_ready fuel env c poll_interval w) = Some (Inr False))"
proof -
  obtain n where fuel: "fuel = Suc (k + n)"
    using assms(5) less_iff_Suc_add by auto
  have start: "clock w - clock w + (\<Sum>i < k. int (fst (env (sent w + i))) + int poll_interval)
      < timeout c" using assms(4) by simp
  have run: "wait_for_session_ready fuel env c poll_interval w =
      wait_loop (Suc (k + n)) env c url poll_interval (clock w) w"
    using assms(1,2) by (simp add: wait_for_session_ready_def fuel)
  have idle: "map_option fst (wait_for_session_ready fuel env c poll_interval w) = Some (Inr True)"
    if y: "yields (env (sent w + k)) (JStr ''idle'')"
  proof -
    have "JStr ''idle'' \<in> session_final" by (simp add: session_final_def)
    from wait_loop_reaches[OF this assms(3) start y, of n url]
    show ?thesis by (simp add: run)
  qed
  have bad: "map_option fst (wait_for_session_ready fuel env c poll_interval w) = Some (Inr False)"
    if m: "st \<in> {JStr ''error'', JStr ''dead'', JStr ''killed''}"
      and y: "yields (env (sent w + k)) st"
  proof -
    have "st \<in> session_final" using m by (auto simp: session_final_def)
    from wait_loop_reaches[OF this assms(3) start y, of n url] m
    show ?thesis by (auto simp: run)
  qed
  show ?thesis using idle bad by blast
qed

text \<open>
  C8, witness: two polls observe starting and the third idle; and a first poll observes
  dead.
\<close>

theorem C8_first_final_poll_witness:
  "map_option fst (wait_for_session_ready 3
      (script [(1, Responds (reply_json (JObj [(''state'', JStr ''starting'')]))),
               (1, Responds (reply_json (JObj [(''state'', JStr ''starting'')])))]
         (1, Responds (reply_json (JObj [(''state'', JStr ''idle'')]))))
      session_client 5 fresh_world) = Some (Inr True)
   \<and> map_option fst (wait_for_session_ready 1
      (script [] (1, Responds (reply_json (JObj [(''state'', JStr ''dead'')]))))
      session_client 5 fresh_world) = Some (Inr False)"
proof -
  let ?e1 = "script [(1, Responds (reply_json (JObj [(''state'', JStr ''starting'')]))),
               (1, Responds (reply_json (JObj [(''state'', JStr ''starting'')])))]
         (1, Responds (reply_json (JObj [(''state'', JStr ''idle'')])))"
  let ?e2 = "script [] (1, Responds (reply_json (JObj [(''state'', JStr ''dead'')])))"
  have u: "session_url session_client = Some ''/sessions/7''" and v: "''/sessions/7'' \<noteq> []"
    by (simp_all add: session_client_def new_client_def)
  have p1: "\<forall>i < 2. pending session_final (?e1 (sent fresh_world + i))"
    by (simp add: script_def pending_def observed_def reply_json_def session_final_def
         fresh_world_def less_Suc_eq numeral_2_eq_2)
  have t1: "(\<Sum>i < 2. int (fst (?e1 (sent fresh_world + i))) + int 5) < timeout session_client"
    by (simp add: script_def fresh_world_def session_client_def new_client_def numeral_2_eq_2)
  have y1: "yields (?e1 (sent fresh_world + 2)) (JStr ''idle'')"
    by (simp add: script_def yields_def observed_def reply_json_def fresh_world_def)
  have p2: "\<forall>i < 0. pending session_final (?e2 (sent fresh_world + i))" by simp
  have t2: "(\<Sum>i < 0. int (fst (?e2 (sent fresh_world + i))) + int 5) < timeout session_client"
    by (simp add: session_client_def new_client_def)
  have y2: "JStr ''dead'' \<in> {JStr ''error'', JStr ''dead'', JStr ''killed''}
      \<and> yields (?e2 (sent fresh_world + 0)) (JStr ''dead'')"
    by (simp add: script_def yields_def observed_def reply_json_def fresh_world_def)
  have a: "map_option fst (wait_for_session_ready 3 ?e1 session_client 5 fresh_world)
      = Some (Inr True)"
    using C8_first_final_poll[of session_client "''/sessions/7''" 2 ?e1 fresh_world 5 3, OF u v p1 t1]
      y1 by simp
  have b: "map_option fst (wait_for_session_ready 1 ?e2 session_client 5 fresh_world)
      = Some (Inr False)"
    using C8_first_final_poll[of session_client "''/sessions/7''" 0 ?e2 fresh_world 5 1 "JStr ''dead''",
        OF u v p2 t2] y2 by simp
  show ?thesis using a b by simp
qed

lemma send_loop_responding:
  assumes all: "\<And>i. \<exists>r. snd (env i) = Responds r \<and> Q r" and s: "supported m"
  shows "clock w \<le> clock (snd (send_loop env m u d mr rc w))
    \<and> (fst (send_loop env m u d mr rc w) = Inr None
        \<or> (\<exists>r. fst (send_loop env m u d mr rc w) = Inr (Some r) \<and> Q r))"
proof (induction rc w rule: retry_induct[where mr = mr])
  case (1 rc w)
  show ?case
  proof (cases "rc < mr")
    case False
    then show ?thesis by (simp add: send_loop_stop)
  next
    case True
    from all[of "sent w"] obtain r where r: "snd (env (sent w)) = Responds r" "Q r" by blast
    let ?w1 = "exchanged env m u d w"
    let ?w2 = "sleep (2 ^ nat (rc + 1)) ?w1"
    note step = send_loop_Responds[of rc mr env w r m u d, OF True r(1) s]
    have c1: "clock w \<le> clock ?w1" by (simp add: exchanged_def)
    have c2: "clock w \<le> clock ?w2" by simp
    note ih = 1[OF True, of ?w2]
    show ?thesis
    proof (cases "200 \<le> status_code r \<and> status_code r < 300")
      case ok: True
      then have "send_loop env m u d mr rc w = (Inr (Some r), ?w1)" by (simp add: step)
      then show ?thesis using c1 r(2) by simp
    next
      case no: False
      show ?thesis
      proof (cases "status_code r \<in> {429, 500, 502, 503, 504}")
        case True
        have again: "send_loop env m u d mr rc w = send_loop env m u d mr (rc + 1) ?w2"
          by (subst step, subst if_not_P[OF no], subst if_P[OF True], rule refl)
        have ihc: "clock ?w2 \<le> clock (snd (send_loop env m u d mr (rc + 1) ?w2))"
          using ih by blast
        have "clock w \<le> clock (snd (send_loop env m u d mr (rc + 1) ?w2))"
          using c2 ihc by (rule order_trans)
        then show ?thesis unfolding again using ih by blast
      next
        case False
        have "send_loop env m u d mr rc w = (Inr (Some r), ?w1)"
          by (subst step, subst if_not_P[OF no], subst if_not_P[OF False], rule refl)
        then show ?thesis using c1 r(2) by simp
      qed
    qed
  qed
qed

lemma quietD:
  "quiet final a \<Longrightarrow>
     \<exists>r. snd a = Responds r
       \<and> (\<not> ok r \<or> (\<exists>j st. body r = Some j \<and> get_state j = Inr st \<and> st \<notin> final))"
  by (cases "snd a")
     (auto simp: quiet_def pending_def observed_def ok_def split: option.splits sum.splits)

lemma wait_loop_quiet:
  assumes q: "\<forall>i. quiet session_final (env i)" and p: "0 < p"
  shows "nat (timeout c - (clock w - start)) < fuel \<Longrightarrow>
     \<exists>w'. wait_loop fuel env c url p start w = Some (Inr False, w')
       \<and> timeout c \<le> clock w' - start"
proof (induction fuel arbitrary: w)
  case 0
  then show ?case by simp
next
  case (Suc n)
  show ?case
  proof (cases "clock w - start < timeout c")
    case False
    then show ?thesis by simp
  next
    case True
    let ?Q = "\<lambda>r. \<not> ok r \<or> (\<exists>j st. body r = Some j \<and> get_state j = Inr st \<and> st \<notin> session_final)"
    have all: "\<And>i. \<exists>r. snd (env i) = Responds r \<and> ?Q r"
      using q quietD[of session_final] by blast
    have sg: "supported ''GET''" by (simp add: supported_def)
    obtain res w1 where send: "send_request env c ''GET'' url None 3 w = (res, w1)" by force
    from send_loop_responding[of env ?Q "''GET''" w "endpoint c @ url" None 3 0, OF all sg] send
    have mono: "clock w \<le> clock w1"
      and shape: "res = Inr None \<or> (\<exists>r. res = Inr (Some r) \<and> ?Q r)"
      by (simp_all add: send_request_def)
    let ?w2 = "sleep (int p) w1"
    have c2: "clock ?w2 = clock w1 + int p" by (simp add: sleep_def)
    have "nat (timeout c - (clock ?w2 - start)) < n"
      using Suc.prems True mono p unfolding c2 by linarith
    from Suc.IH[OF this] obtain w' where
      ih: "wait_loop n env c url p start ?w2 = Some (Inr False, w')" "timeout c \<le> clock w' - start"
      by blast
    have "wait_loop (Suc n) env c url p start w = wait_loop n env c url p start ?w2"
      using True shape by (auto simp: send session_final_def)
    then show ?thesis using ih by simp
  qed
qed

lemma result_loop_quiet:
  assumes q: "\<forall>i. quiet statement_final (env i)" and p: "0 < p"
  shows "nat (timeout c - (clock w - start)) < fuel \<Longrightarrow>
     \<exists>w'. result_loop fuel env c loc p start w = Some (Inr None, w')
       \<and> timeout c \<le> clock w' - start"
proof (induction fuel arbitrary: w)
  case 0
  then show ?case by simp
next
  case (Suc n)
  show ?case
  proof (cases "clock w - start < timeout c")
    case False
    then show ?thesis by simp
  next
    case True
    let ?Q = "\<lambda>r. \<not> ok r \<or> (\<exists>j st. body r = Some j \<and> get_state j = Inr st \<and> st \<notin> statement_final)"
    have all: "\<And>i. \<exists>r. snd (env i) = Responds r \<and> ?Q r"
      using q quietD[of statement_final] by blast
    have sg: "supported ''GET''" by (simp add: supported_def)
    obtain res w1 where send: "send_request env c ''GET'' loc None 3 w = (res, w1)" by force
    from send_loop_responding[of env ?Q "''GET''" w "endpoint c @ loc" None 3 0, OF all sg] send
    have mono: "clock w \<le> clock w1"
      and shape: "res = Inr None \<or> (\<exists>r. res = Inr (Some r) \<and> ?Q r)"
      by (simp_all add: send_request_def)
    let ?w2 = "sleep (int p) w1"
    have c2: "clock ?w2 = clock w1 + int p" by (simp add: sleep_def)
    have "nat (timeout c - (clock ?w2 - start)) < n"
      using Suc.prems True mono p unfolding c2 by linarith
    from Suc.IH[OF this] obtain w' where
      ih: "result_loop n env c loc p start ?w2 = Some (Inr None, w')" "timeout c \<le> clock w' - start"
      by blast
    have "result_loop (Suc n) env c loc p start w = result_loop n env c loc p start ?w2"
      using True shape by (auto simp: send statement_final_def)
    then show ?thesis using ih by simp
  qed
qed

section \<open>Backoff between attempts\<close>

lemma length_rounds [simp]: "length (rounds m u d n k) = 3 * k"
  by (induction k arbitrary: n) simp_all

lemma sleeps_rounds_le: "k \<le> length (sleeps (rounds m u d n k @ es))"
  by (induction k arbitrary: n) auto

lemma failing_answerD:
  "failing_answer a \<Longrightarrow>
     snd a = NetFails \<or> (\<exists>r. snd a = Responds r \<and> status_code r \<in> {429, 500, 502, 503, 504})"
  by (cases "snd a") (simp_all add: failing_answer_def)

lemma send_loop_extends:
  assumes "0 \<le> rc"
  shows "\<exists>es. trace (snd (send_loop env m u d mr rc w)) = trace w @ es"
  using send_loop_paced[OF assms, of env m u d mr w] by blast

lemma send_loop_first_attempt:
  assumes rc: "0 \<le> rc" and lt: "rc < mr" and s: "supported m"
    and a: "snd (env (sent w)) \<noteq> SignFails"
  shows "\<exists>es. trace (snd (send_loop env m u d mr rc w)) =
           trace w @ Signed m u # Exchanged m u (carried m d) # es"
proof -
  let ?w1 = "exchanged env m u d w"
  let ?w2 = "sleep (2 ^ nat (rc + 1)) ?w1"
  have t1: "trace ?w1 = trace w @ Signed m u # Exchanged m u (carried m d) # []"
    by (simp add: exchanged_def)
  have rc1: "0 \<le> rc + 1" using rc by simp
  from send_loop_extends[OF rc1, of env m u d mr ?w2]
  obtain es where "trace (snd (send_loop env m u d mr (rc + 1) ?w2)) = trace ?w2 @ es" by blast
  then have t2: "trace (snd (send_loop env m u d mr (rc + 1) ?w2)) =
      trace w @ Signed m u # Exchanged m u (carried m d) # Slept (2 ^ nat (rc + 1)) # es"
    by (simp add: trace_sleep_exchanged)
  show ?thesis
  proof (cases "snd (env (sent w))")
    case SignFails
    then show ?thesis using a by simp
  next
    case NetFails
    show ?thesis
      unfolding send_loop_NetFails[of rc mr env w m u d, OF lt NetFails s]
      using t1 t2 by (cases "rc + 1 < mr") auto
  next
    case (Responds r)
    show ?thesis
      unfolding send_loop_Responds[of rc mr env w r m u d, OF lt Responds s]
      using t1 t2
      by (cases "200 \<le> status_code r \<and> status_code r < 300";
          cases "status_code r \<in> {429, 500, 502, 503, 504}") auto
  qed
qed

lemma send_loop_retries:
  assumes lt: "rc + 1 < mr" and s: "supported m" and f: "failing_answer (env (sent w))"
  shows "send_loop env m u d mr rc w =
     send_loop env m u d mr (rc + 1) (sleep (2 ^ nat (rc + 1)) (exchanged env m u d w))"
proof -
  have lt': "rc < mr" using lt by simp
  from failing_answerD[OF f] show ?thesis
  proof
    assume n: "snd (env (sent w)) = NetFails"
    show ?thesis
      unfolding send_loop_NetFails[of rc mr env w m u d, OF lt' n s] using lt by simp
  next
    assume "\<exists>r. snd (env (sent w)) = Responds r \<and> status_code r \<in> {429, 500, 502, 503, 504}"
    then obtain r where r: "snd (env (sent w)) = Responds r"
      "status_code r \<in> {429, 500, 502, 503, 504}" by blast
    have no: "\<not> (200 \<le> status_code r \<and> status_code r < 300)" using r(2) by auto
    show ?thesis
      by (subst send_loop_Responds[of rc mr env w r m u d, OF lt' r(1) s],
          subst if_not_P[OF no], subst if_P[OF r(2)], rule refl)
  qed
qed

lemma send_loop_rounds:
  "0 \<le> rc \<Longrightarrow> supported m \<Longrightarrow> rc + int k < mr \<Longrightarrow>
   (\<forall>i < k. failing_answer (env (sent w + i))) \<Longrightarrow> snd (env (sent w + k)) \<noteq> SignFails \<Longrightarrow>
   \<exists>es. trace (snd (send_loop env m u d mr rc w)) =
     trace w @ rounds m u (carried m d) (nat (rc + 1)) k
       @ Signed m u # Exchanged m u (carried m d) # es"
proof (induction k arbitrary: rc w)
  case 0
  then show ?case using send_loop_first_attempt[of rc mr m env w u d] by simp
next
  case (Suc k)
  let ?w2 = "sleep (2 ^ nat (rc + 1)) (exchanged env m u d w)"
  have lt: "rc + 1 < mr" using Suc.prems(3) by simp
  have f: "failing_answer (env (sent w))" using Suc.prems(4)[rule_format, of 0] by simp
  note step = send_loop_retries[of rc mr m env w u d, OF lt Suc.prems(2) f]
  have rc1: "0 \<le> rc + 1" using Suc.prems(1) by simp
  have b: "rc + 1 + int k < mr" using Suc.prems(3) by simp
  have all': "\<forall>i < k. failing_answer (env (sent ?w2 + i))"
  proof (intro allI impI)
    fix i assume "i < k"
    then have "Suc i < Suc k" by simp
    then have "failing_answer (env (sent w + Suc i))" by (rule Suc.prems(4)[rule_format])
    then show "failing_answer (env (sent ?w2 + i))" by simp
  qed
  have last': "snd (env (sent ?w2 + k)) \<noteq> SignFails" using Suc.prems(5) by simp
  from Suc.IH[OF rc1 Suc.prems(2) b all' last']
  obtain es where ih: "trace (snd (send_loop env m u d mr (rc + 1) ?w2)) =
     trace ?w2 @ rounds m u (carried m d) (nat (rc + 1 + 1)) k
       @ Signed m u # Exchanged m u (carried m d) # es" by blast
  have n: "nat (rc + 1 + 1) = Suc (nat (rc + 1))" using Suc.prems(1) by simp
  have "trace (snd (send_loop env m u d mr rc w)) =
     trace w @ rounds m u (carried m d) (nat (rc + 1)) (Suc k)
       @ Signed m u # Exchanged m u (carried m d) # es"
    unfolding step ih n by (simp add: trace_sleep_exchanged)
  then show ?case by blast
qed

text \<open>
  C6, as amended. For a supported method and every \<open>k\<close> below \<open>max_retries\<close>: when the
  first \<open>k\<close> attempts of a call fail in a way the dispatcher retries (network failure or
  retryable status) and the signer does not fail at attempt \<open>k + 1\<close>, the call begins
  with those attempts, the n-th followed by a sleep of exactly \<open>2 ^ n\<close> seconds (n counted
  from 1; the base is the constant 2 of the source), and then makes attempt \<open>k + 1\<close>.
  All sleeps of the call follow this schedule, whatever the answers are, and are strictly
  increasing.
\<close>

theorem C6_backoff_between_attempts:
  assumes "supported meth" and "int k < max_retries"
    and "\<forall>i < k. failing_answer (env (sent w + i))"
    and "snd (env (sent w + k)) \<noteq> SignFails"
  shows "take (3 * k + 2) (emitted w (snd (send_request env c meth path data max_retries w))) =
           rounds meth (endpoint c @ path) (carried meth data) 1 k
             @ [Signed meth (endpoint c @ path),
                Exchanged meth (endpoint c @ path) (carried meth data)]
    \<and> k \<le> length (sleeps (emitted w (snd (send_request env c meth path data max_retries w))))
    \<and> sleeps (emitted w (snd (send_request env c meth path data max_retries w))) =
         map (\<lambda>n. 2 ^ n)
           [1 ..< 1 + length (sleeps (emitted w (snd (send_request env c meth path data max_retries w))))]
    \<and> sorted_wrt (<) (sleeps (emitted w (snd (send_request env c meth path data max_retries w))))"
proof -
  let ?u = "endpoint c @ path"
  let ?es = "emitted w (snd (send_request env c meth path data max_retries w))"
  have b: "0 + int k < max_retries" using assms(2) by simp
  from send_loop_rounds[of 0 meth k max_retries env w ?u data, OF _ assms(1) b assms(3) assms(4)]
  obtain es where tr: "trace (snd (send_loop env meth ?u data max_retries 0 w)) =
     trace w @ rounds meth ?u (carried meth data) 1 k
       @ Signed meth ?u # Exchanged meth ?u (carried meth data) # es" by auto
  then have es: "?es = rounds meth ?u (carried meth data) 1 k
       @ Signed meth ?u # Exchanged meth ?u (carried meth data) # es"
    by (simp add: emitted_def send_request_def)
  have first: "take (3 * k + 2) ?es =
      rounds meth ?u (carried meth data) 1 k
        @ [Signed meth ?u, Exchanged meth ?u (carried meth data)]"
    unfolding es by simp
  have count: "k \<le> length (sleeps ?es)" unfolding es by (rule sleeps_rounds_le)
  have p: "paced 1 ?es"
    using send_request_emitted[of w env c meth path data max_retries] by simp
  have s: "sleeps ?es = map (\<lambda>n. 2 ^ n) [1 ..< 1 + length (sleeps ?es)]"
    by (rule paced_sleeps[OF p])
  have "sorted_wrt (<) (map (\<lambda>n. (2::int) ^ n) [1 ..< 1 + length (sleeps ?es)])"
    by (rule powers_increasing)
  with s have i: "sorted_wrt (<) (sleeps ?es)" by simp
  show ?thesis using first count s i by blast
qed

text \<open>
  C6, witness: a network failure and a 503, then a 200, under \<open>max_retries = 3\<close>: two
  failed attempts with sleeps of 2 and 4 seconds, then the third attempt.
\<close>

theorem C6_backoff_between_attempts_witness:
  "take 8 (emitted fresh_world (snd (send_request
       (script [(0, NetFails), (0, Responds (reply 503))] (0, Responds (reply 200)))
       new_client ''GET'' ''/sessions'' None 3 fresh_world))) =
     [Signed ''GET'' ''https://livy.test/sessions'', Exchanged ''GET'' ''https://livy.test/sessions'' None,
      Slept 2,
      Signed ''GET'' ''https://livy.test/sessions'', Exchanged ''GET'' ''https://livy.test/sessions'' None,
      Slept 4,
      Signed ''GET'' ''https://livy.test/sessions'', Exchanged ''GET'' ''https://livy.test/sessions'' None]
   \<and> sorted_wrt (<) (sleeps (emitted fresh_world (snd (send_request
       (script [(0, NetFails), (0, Responds (reply 503))] (0, Responds (reply 200)))
       new_client ''GET'' ''/sessions'' None 3 fresh_world))))"
proof -
  let ?env = "script [(0, NetFails), (0, Responds (reply 503))] (0, Responds (reply 200))"
  have h1: "supported ''GET''" by (simp add: supported_def)
  have h2: "int 2 < 3" by simp
  have h3: "\<forall>i < 2. failing_answer (?env (sent fresh_world + i))"
    by (simp add: script_def failing_answer_def reply_def fresh_world_def less_Suc_eq numeral_2_eq_2)
  have h4: "snd (?env (sent fresh_world + 2)) \<noteq> SignFails"
    by (simp add: script_def fresh_world_def)
  have r: "rounds ''GET'' (endpoint new_client @ ''/sessions'') (carried ''GET'' None) 1 2
      @ [Signed ''GET'' (endpoint new_client @ ''/sessions''),
         Exchanged ''GET'' (endpoint new_client @ ''/sessions'') (carried ''GET'' None)] =
     [Signed ''GET'' ''https://livy.test/sessions'', Exchanged ''GET'' ''https://livy.test/sessions'' None,
      Slept 2,
      Signed ''GET'' ''https://livy.test/sessions'', Exchanged ''GET'' ''https://livy.test/sessions'' None,
      Slept 4,
      Signed ''GET'' ''https://livy.test/sessions'', Exchanged ''GET'' ''https://livy.test/sessions'' None]"
    by (simp add: numeral_2_eq_2 new_client_def carried_def)
  show ?thesis
    using C6_backoff_between_attempts[of "''GET''" 2 3 ?env fresh_world new_client "''/sessions''" None,
        OF h1 h2 h3 h4]
    unfolding r by simp
qed

text \<open>
  C6, counterexample to the claim as stated, at \<open>n = max_retries = 3\<close>: with every answer
  503 the call makes three exchanges and ends on a sleep of 8 seconds that no fourth
  attempt follows; with every exchange failing at network level it sleeps 2 and 4 seconds
  only, and no sleep of \<open>2 ^ 3\<close> seconds takes place.
\<close>

theorem C6_counterexample:
  "sleeps (emitted fresh_world (snd (send_request (script [] (0, Responds (reply 503)))
       new_client ''GET'' ''/sessions'' None 3 fresh_world))) = [2, 4, 8]
   \<and> length (filter is_exchanged (emitted fresh_world (snd (send_request
       (script [] (0, Responds (reply 503))) new_client ''GET'' ''/sessions'' None 3 fresh_world)))) = 3
   \<and> last (emitted fresh_world (snd (send_request (script [] (0, Responds (reply 503)))
       new_client ''GET'' ''/sessions'' None 3 fresh_world))) = Slept 8
   \<and> sleeps (emitted fresh_world (snd (send_request (script [] (0, NetFails))
       new_client ''GET'' ''/sessions'' None 3 fresh_world))) = [2, 4]"
  by (simp add: run_simps)

section \<open>Creating a session\<close>





section \<open>Polls that are absorbed\<close>

lemma elapsed_nonneg: "0 \<le> elapsed env p i ps"
  by (induction env p i ps rule: elapsed.induct) simp_all

lemma refused_answerD:
  "refused_answer a \<Longrightarrow>
     \<exists>r. snd a = Responds r \<and> \<not> ok r \<and> status_code r \<notin> {429, 500, 502, 503, 504}
       \<and> \<not> (200 \<le> status_code r \<and> status_code r < 300)"
  by (cases "snd a") (auto simp: refused_answer_def ok_def)

lemma send_request_refused:
  assumes "refused_answer (env (sent w))" and s: "supported m" and lt: "0 < mr"
  shows "\<exists>r. send_request env c m p d mr w = (Inr (Some r), exchanged env m (endpoint c @ p) d w)
           \<and> \<not> ok r"
proof -
  from refused_answerD[OF assms(1)] obtain r where r: "snd (env (sent w)) = Responds r"
    "\<not> ok r" "status_code r \<notin> {429, 500, 502, 503, 504}"
    "\<not> (200 \<le> status_code r \<and> status_code r < 300)" by blast
  have "send_loop env m (endpoint c @ p) d mr 0 w =
      (Inr (Some r), exchanged env m (endpoint c @ p) d w)"
    by (subst send_loop_Responds[of 0 mr env w r m "endpoint c @ p" d, OF lt r(1) s],
        subst if_not_P[OF r(4)], subst if_not_P[OF r(3)], rule refl)
  then show ?thesis using r(2) by (simp add: send_request_def)
qed

lemma retryable_failing: "retryable_answer a \<Longrightarrow> failing_answer a"
  by (cases "snd a") (simp_all add: retryable_answer_def failing_answer_def)

lemma send_request_unanswered:
  assumes a0: "retryable_answer (env (sent w))" and a1: "retryable_answer (env (sent w + 1))"
    and a2: "retryable_answer (env (sent w + 2))" and s: "supported m"
  shows "\<exists>w3. send_request env c m p d 3 w = (Inr None, w3)
     \<and> clock w3 = clock w + int (fst (env (sent w))) + 2 + int (fst (env (sent w + 1))) + 4
          + int (fst (env (sent w + 2))) + 8
     \<and> sent w3 = sent w + 3"
proof -
  let ?u = "endpoint c @ p"
  let ?w1 = "sleep (2 ^ nat (0 + 1)) (exchanged env m ?u d w)"
  let ?w2 = "sleep (2 ^ nat (0 + 1 + 1)) (exchanged env m ?u d ?w1)"
  let ?w3 = "sleep (2 ^ nat (0 + 1 + 1 + 1)) (exchanged env m ?u d ?w2)"
  have f0: "failing_answer (env (sent w))" using a0 by (rule retryable_failing)
  have f1: "failing_answer (env (sent ?w1))" using a1 by (simp add: retryable_failing)
  have f2: "failing_answer (env (sent ?w2))" using a2 by (simp add: retryable_failing)
  have e1: "send_loop env m ?u d 3 0 w = send_loop env m ?u d 3 (0 + 1) ?w1"
    by (rule send_loop_retries[where env = env and w = w and rc = 0, OF _ s f0]) simp
  have e2: "send_loop env m ?u d 3 (0 + 1) ?w1 = send_loop env m ?u d 3 (0 + 1 + 1) ?w2"
    by (rule send_loop_retries[where env = env and w = "?w1" and rc = "0 + 1", OF _ s f1]) simp
  from retryable_answerD[of env "sent ?w2"] a2
  obtain r where r: "snd (env (sent ?w2)) = Responds r"
    "status_code r \<in> {429, 500, 502, 503, 504}" by auto
  have no: "\<not> (200 \<le> status_code r \<and> status_code r < 300)" using r(2) by auto
  have lt: "(0::int) + 1 + 1 < 3" by simp
  have e3: "send_loop env m ?u d 3 (0 + 1 + 1) ?w2 = send_loop env m ?u d 3 (0 + 1 + 1 + 1) ?w3"
    by (subst send_loop_Responds[of "0 + 1 + 1" 3 env ?w2 r m ?u d, OF lt r(1) s],
        subst if_not_P[OF no], subst if_P[OF r(2)], rule refl)
  have e4: "send_loop env m ?u d 3 (0 + 1 + 1 + 1) ?w3 = (Inr None, ?w3)"
    by (rule send_loop_stop) simp
  have run: "send_request env c m p d 3 w = (Inr None, ?w3)"
    unfolding send_request_def by (simp only: e1 e2 e3 e4)
  have c: "clock ?w3 = clock w + int (fst (env (sent w))) + 2 + int (fst (env (sent w + 1))) + 4
          + int (fst (env (sent w + 2))) + 8"
    by (simp add: numeral_2_eq_2)
  have n: "sent ?w3 = sent w + 3" by simp
  show ?thesis using run c n by blast
qed

text \<open>What the dispatcher gives a poll that does not end the loop, and what the poll costs.\<close>

lemma absorbed_poll:
  assumes "scripted final env (sent w) [q]"
  shows "\<exists>res w1. send_request env c ''GET'' url None 3 w = (res, w1)
     \<and> (res = Inr None
         \<or> (\<exists>r. res = Inr (Some r)
               \<and> (\<not> ok r \<or> (\<exists>j st. body r = Some j \<and> get_state j = Inr st \<and> st \<notin> final))))
     \<and> clock (sleep (int p) w1) = clock w + elapsed env p (sent w) [q]
     \<and> sent (sleep (int p) w1) = sent w + attempts [q]"
proof (cases q)
  case Waiting
  then have "pending final (env (sent w))" using assms by simp
  from pendingD[OF this] obtain r j st where r: "snd (env (sent w)) = Responds r"
    "200 \<le> status_code r" "status_code r < 300" "body r = Some j" "get_state j = Inr st"
    "st \<notin> final" by blast
  have sg: "supported ''GET''" by (simp add: supported_def)
  have "send_request env c ''GET'' url None 3 w =
      (Inr (Some r), exchanged env ''GET'' (endpoint c @ url) None w)"
    using r(1,2,3) sg by (simp add: send_request_2xx)
  then show ?thesis using Waiting r(4,5,6) by simp
next
  case Refused
  then have "refused_answer (env (sent w))" using assms by simp
  have sg: "supported ''GET''" by (simp add: supported_def)
  from send_request_refused[where env = env and w = w and mr = 3 and c = c and p = url
      and d = None, OF \<open>refused_answer (env (sent w))\<close> sg]
  obtain r where "send_request env c ''GET'' url None 3 w =
      (Inr (Some r), exchanged env ''GET'' (endpoint c @ url) None w)" "\<not> ok r" by auto
  then show ?thesis using Refused by simp
next
  case Unanswered
  then have a: "retryable_answer (env (sent w))" "retryable_answer (env (sent w + 1))"
    "retryable_answer (env (sent w + 2))" using assms by simp_all
  have sg: "supported ''GET''" by (simp add: supported_def)
  from send_request_unanswered[where env = env and w = w and c = c and p = url and d = None,
      OF a sg]
  obtain w3 where "send_request env c ''GET'' url None 3 w = (Inr None, w3)"
    "clock w3 = clock w + int (fst (env (sent w))) + 2 + int (fst (env (sent w + 1))) + 4
          + int (fst (env (sent w + 2))) + 8" "sent w3 = sent w + 3" by blast
  then show ?thesis using Unanswered by (simp add: sleep_def)
qed

lemma polls_Cons:
  "attempts (q # ps) = attempts [q] + attempts ps"
  "elapsed env p i (q # ps) = elapsed env p i [q] + elapsed env p (i + attempts [q]) ps"
  "scripted final env i (q # ps) = (scripted final env i [q] \<and> scripted final env (i + attempts [q]) ps)"
  by (cases q; simp)+

lemma wait_loop_continue:
  assumes "clock w - start < timeout c"
    and "send_request env c ''GET'' url None 3 w = (res, w1)"
    and "res = Inr None
         \<or> (\<exists>r. res = Inr (Some r)
               \<and> (\<not> ok r \<or> (\<exists>j st. body r = Some j \<and> get_state j = Inr st
                                  \<and> st \<notin> session_final)))"
  shows "wait_loop (Suc n) env c url p start w = wait_loop n env c url p start (sleep (int p) w1)"
  using assms by (auto simp: session_final_def)

lemma result_loop_continue:
  assumes "clock w - start < timeout c"
    and "send_request env c ''GET'' loc None 3 w = (res, w1)"
    and "res = Inr None
         \<or> (\<exists>r. res = Inr (Some r)
               \<and> (\<not> ok r \<or> (\<exists>j st. body r = Some j \<and> get_state j = Inr st
                                  \<and> st \<notin> statement_final)))"
  shows "result_loop (Suc n) env c loc p start w = result_loop n env c loc p start (sleep (int p) w1)"
  using assms by (auto simp: statement_final_def)

lemma wait_loop_polls:
  assumes f: "st \<in> session_final"
  shows "scripted session_final env (sent w) ps \<Longrightarrow>
   clock w - start + elapsed env p (sent w) ps < timeout c \<Longrightarrow>
   yields (env (sent w + attempts ps)) st \<Longrightarrow>
   \<exists>w'. wait_loop (Suc (length ps + n)) env c url p start w = Some (Inr (st = JStr ''idle''), w')
     \<and> clock w' = clock w + elapsed env p (sent w) ps + int (fst (env (sent w + attempts ps)))"
proof (induction ps arbitrary: w)
  case Nil
  from yieldsD[of "env (sent w)" st] Nil(3)
  obtain r j where r: "snd (env (sent w)) = Responds r" "200 \<le> status_code r"
    "status_code r < 300" "body r = Some j" "get_state j = Inr st" by auto
  have sg: "supported ''GET''" by (simp add: supported_def)
  have send: "send_request env c ''GET'' url None 3 w =
      (Inr (Some r), exchanged env ''GET'' (endpoint c @ url) None w)"
    using r(1,2,3) sg by (simp add: send_request_2xx)
  have t: "clock w - start < timeout c" using Nil(2) by simp
  have "wait_loop (Suc (length ([]::poll list) + n)) env c url p start w =
      Some (Inr (st = JStr ''idle''), exchanged env ''GET'' (endpoint c @ url) None w)"
    using t r f by (auto simp: send ok_def session_final_def)
  moreover have "clock (exchanged env ''GET'' (endpoint c @ url) None w) =
      clock w + elapsed env p (sent w) [] + int (fst (env (sent w + attempts [])))"
    by (simp add: exchanged_def)
  ultimately show ?case by blast
next
  case (Cons q ps)
  have sc: "scripted session_final env (sent w) [q]"
    "scripted session_final env (sent w + attempts [q]) ps"
    using Cons.prems(1) polls_Cons(3)[of session_final env "sent w" q ps] by simp_all
  from absorbed_poll[OF sc(1), of c url p]
  obtain res w1 where poll: "send_request env c ''GET'' url None 3 w = (res, w1)"
    "res = Inr None
         \<or> (\<exists>r. res = Inr (Some r)
               \<and> (\<not> ok r \<or> (\<exists>j st. body r = Some j \<and> get_state j = Inr st
                                  \<and> st \<notin> session_final)))"
    "clock (sleep (int p) w1) = clock w + elapsed env p (sent w) [q]"
    "sent (sleep (int p) w1) = sent w + attempts [q]" by blast
  let ?w2 = "sleep (int p) w1"
  have el: "elapsed env p (sent w) (q # ps) =
      elapsed env p (sent w) [q] + elapsed env p (sent w + attempts [q]) ps"
    by (rule polls_Cons(2))
  have at: "attempts (q # ps) = attempts [q] + attempts ps" by (rule polls_Cons(1))
  have t: "clock w - start < timeout c"
    using Cons.prems(2) elapsed_nonneg[of env p "sent w" "q # ps"] by linarith
  have step: "wait_loop (Suc (length (q # ps) + n)) env c url p start w =
      wait_loop (Suc (length ps + n)) env c url p start ?w2"
  proof -
    have l: "Suc (length (q # ps) + n) = Suc (Suc (length ps + n))" by simp
    show ?thesis unfolding l by (rule wait_loop_continue[OF t poll(1) poll(2)])
  qed
  have sc': "scripted session_final env (sent ?w2) ps" using sc(2) poll(4) by simp
  have t': "clock ?w2 - start + elapsed env p (sent ?w2) ps < timeout c"
    using Cons.prems(2) unfolding el poll(3) poll(4) by linarith
  have y': "yields (env (sent ?w2 + attempts ps)) st"
    using Cons.prems(3) unfolding at poll(4) by (simp add: add.assoc)
  from Cons.IH[OF sc' t' y'] obtain w' where
    ih: "wait_loop (Suc (length ps + n)) env c url p start ?w2 = Some (Inr (st = JStr ''idle''), w')"
    "clock w' = clock ?w2 + elapsed env p (sent ?w2) ps + int (fst (env (sent ?w2 + attempts ps)))"
    by blast
  have "clock w' = clock w + elapsed env p (sent w) (q # ps)
      + int (fst (env (sent w + attempts (q # ps))))"
    using ih(2) unfolding el at poll(3) poll(4) by (simp add: add.assoc)
  then show ?case using ih(1) unfolding step by blast
qed

lemma result_loop_polls:
  assumes f: "st \<in> statement_final"
  shows "scripted statement_final env (sent w) ps \<Longrightarrow>
   clock w - start + elapsed env p (sent w) ps < timeout c \<Longrightarrow>
   snd (env (sent w + attempts ps)) = Responds r \<Longrightarrow>
   200 \<le> status_code r \<Longrightarrow> status_code r < 300 \<Longrightarrow>
   body r = Some j \<Longrightarrow> get_state j = Inr st \<Longrightarrow>
   \<exists>w'. result_loop (Suc (length ps + n)) env c loc p start w = Some (Inr (Some j), w')
     \<and> clock w' = clock w + elapsed env p (sent w) ps + int (fst (env (sent w + attempts ps)))"
proof (induction ps arbitrary: w)
  case Nil
  have a: "snd (env (sent w)) = Responds r" using Nil(3) by simp
  have sg: "supported ''GET''" by (simp add: supported_def)
  have send: "send_request env c ''GET'' loc None 3 w =
      (Inr (Some r), exchanged env ''GET'' (endpoint c @ loc) None w)"
    using a Nil(4,5) sg by (simp add: send_request_2xx)
  have t: "clock w - start < timeout c" using Nil(2) by simp
  have "result_loop (Suc (length ([]::poll list) + n)) env c loc p start w =
      Some (Inr (Some j), exchanged env ''GET'' (endpoint c @ loc) None w)"
    using t Nil(4,5,6,7) f by (auto simp: send ok_def statement_final_def)
  moreover have "clock (exchanged env ''GET'' (endpoint c @ loc) None w) =
      clock w + elapsed env p (sent w) [] + int (fst (env (sent w + attempts [])))"
    by (simp add: exchanged_def)
  ultimately show ?case by blast
next
  case (Cons q ps)
  have sc: "scripted statement_final env (sent w) [q]"
    "scripted statement_final env (sent w + attempts [q]) ps"
    using Cons.prems(1) polls_Cons(3)[of statement_final env "sent w" q ps] by simp_all
  from absorbed_poll[OF sc(1), of c loc p]
  obtain res w1 where poll: "send_request env c ''GET'' loc None 3 w = (res, w1)"
    "res = Inr None
         \<or> (\<exists>r. res = Inr (Some r)
               \<and> (\<not> ok r \<or> (\<exists>j st. body r = Some j \<and> get_state j = Inr st
                                  \<and> st \<notin> statement_final)))"
    "clock (sleep (int p) w1) = clock w + elapsed env p (sent w) [q]"
    "sent (sleep (int p) w1) = sent w + attempts [q]" by blast
  let ?w2 = "sleep (int p) w1"
  have el: "elapsed env p (sent w) (q # ps) =
      elapsed env p (sent w) [q] + elapsed env p (sent w + attempts [q]) ps"
    by (rule polls_Cons(2))
  have at: "attempts (q # ps) = attempts [q] + attempts ps" by (rule polls_Cons(1))
  have t: "clock w - start < timeout c"
    using Cons.prems(2) elapsed_nonneg[of env p "sent w" "q # ps"] by linarith
  have step: "result_loop (Suc (length (q # ps) + n)) env c loc p start w =
      result_loop (Suc (length ps + n)) env c loc p start ?w2"
  proof -
    have l: "Suc (length (q # ps) + n) = Suc (Suc (length ps + n))" by simp
    show ?thesis unfolding l by (rule result_loop_continue[OF t poll(1) poll(2)])
  qed
  have sc': "scripted statement_final env (sent ?w2) ps" using sc(2) poll(4) by simp
  have t': "clock ?w2 - start + elapsed env p (sent ?w2) ps < timeout c"
    using Cons.prems(2) unfolding el poll(3) poll(4) by linarith
  have a': "snd (env (sent ?w2 + attempts ps)) = Responds r"
    using Cons.prems(3) unfolding at poll(4) by (simp add: add.assoc)
  from Cons.IH[OF sc' t' a' Cons.prems(4) Cons.prems(5) Cons.prems(6) Cons.prems(7)] obtain w' where
    ih: "result_loop (Suc (length ps + n)) env c loc p start ?w2 = Some (Inr (Some j), w')"
    "clock w' = clock ?w2 + elapsed env p (sent ?w2) ps + int (fst (env (sent ?w2 + attempts ps)))"
    by blast
  have "clock w' = clock w + elapsed env p (sent w) (q # ps)
      + int (fst (env (sent w + attempts (q # ps))))"
    using ih(2) unfolding el at poll(3) poll(4) by (simp add: add.assoc)
  then show ?case using ih(1) unfolding step by blast
qed

text \<open>
  C4, as amended. (1, 2) With a positive poll interval, when no poll ever observes a state
  the loop returns on (every answer is a 2xx response with another state or a response
  with an error status), both polling operations return normally once the timeout has
  elapsed: \<open>wait_for_session_ready\<close> returns False and \<open>get_statement_result\<close> returns
  None; no exception is raised for the timeout. (3, 4) Polls that end without a usable
  response (the dispatcher returned None after three retryable statuses, or a response
  with another error status) or that read another state never end the loop by
  themselves: after each of them the operation sleeps \<open>poll_interval\<close> and polls again,
  and when a later poll, started before the timeout, reads a state the loop returns on,
  the result is the one of that state: True for idle and False for error, dead or killed
  (the value also returned on timeout), and the statement's record for available, error
  or cancelled (where the timeout gives None). The clock then shows exactly the time of
  the exchanges, of the dispatcher's sleeps and of one sleep of \<open>poll_interval\<close> per
  earlier poll.
\<close>

theorem C4_timeouts_return:
  "(0 < poll_interval \<and> nat (timeout c) < fuel \<and> session_url c = Some url \<and> url \<noteq> []
      \<and> (\<forall>i. quiet session_final (env i))
      \<longrightarrow> (\<exists>w'. wait_for_session_ready fuel env c poll_interval w = Some (Inr False, w')
             \<and> timeout c \<le> clock w' - clock w))
   \<and> (0 < poll_interval \<and> nat (timeout c) < fuel \<and> (\<forall>i. quiet statement_final (env i))
      \<longrightarrow> (\<exists>w'. get_statement_result fuel env c loc poll_interval w = Some (Inr None, w')
             \<and> timeout c \<le> clock w' - clock w))
   \<and> (session_url c = Some url \<and> url \<noteq> [] \<and> length ps < fuel
        \<and> scripted session_final env (sent w) ps
        \<and> elapsed env poll_interval (sent w) ps < timeout c
        \<and> st \<in> session_final \<and> yields (env (sent w + attempts ps)) st
      \<longrightarrow> (\<exists>w'. wait_for_session_ready fuel env c poll_interval w
                  = Some (Inr (st = JStr ''idle''), w')
             \<and> clock w' = clock w + elapsed env poll_interval (sent w) ps
                  + int (fst (env (sent w + attempts ps)))))
   \<and> (length ps < fuel
        \<and> scripted statement_final env (sent w) ps
        \<and> elapsed env poll_interval (sent w) ps < timeout c
        \<and> snd (env (sent w + attempts ps)) = Responds r
        \<and> 200 \<le> status_code r \<and> status_code r < 300 \<and> body r = Some j
        \<and> get_state j = Inr st \<and> st \<in> statement_final
      \<longrightarrow> (\<exists>w'. get_statement_result fuel env c loc poll_interval w = Some (Inr (Some j), w')
             \<and> clock w' = clock w + elapsed env poll_interval (sent w) ps
                  + int (fst (env (sent w + attempts ps)))))"
proof (intro conjI impI)
  assume h: "0 < poll_interval \<and> nat (timeout c) < fuel \<and> session_url c = Some url \<and> url \<noteq> []
      \<and> (\<forall>i. quiet session_final (env i))"
  then have m: "nat (timeout c - (clock w - clock w)) < fuel" by simp
  from h have q: "\<forall>i. quiet session_final (env i)" and p: "0 < poll_interval" by blast+
  show "\<exists>w'. wait_for_session_ready fuel env c poll_interval w = Some (Inr False, w')
             \<and> timeout c \<le> clock w' - clock w"
    using wait_loop_quiet[OF q p m, of url] h by (simp add: wait_for_session_ready_def)
next
  assume h: "0 < poll_interval \<and> nat (timeout c) < fuel \<and> (\<forall>i. quiet statement_final (env i))"
  then have m: "nat (timeout c - (clock w - clock w)) < fuel" by simp
  from h have q: "\<forall>i. quiet statement_final (env i)" and p: "0 < poll_interval" by blast+
  show "\<exists>w'. get_statement_result fuel env c loc poll_interval w = Some (Inr None, w')
             \<and> timeout c \<le> clock w' - clock w"
    using result_loop_quiet[OF q p m, of loc] by (simp add: get_statement_result_def)
next
  assume h: "session_url c = Some url \<and> url \<noteq> [] \<and> length ps < fuel
        \<and> scripted session_final env (sent w) ps
        \<and> elapsed env poll_interval (sent w) ps < timeout c
        \<and> st \<in> session_final \<and> yields (env (sent w + attempts ps)) st"
  then obtain n where fuel: "fuel = Suc (length ps + n)"
    using less_iff_Suc_add[of "length ps" fuel] by auto
  from h have f: "st \<in> session_final" and sc: "scripted session_final env (sent w) ps"
    and y: "yields (env (sent w + attempts ps)) st" by blast+
  from h have t: "clock w - clock w + elapsed env poll_interval (sent w) ps < timeout c" by simp
  from wait_loop_polls[OF f sc t y, of n url]
  show "\<exists>w'. wait_for_session_ready fuel env c poll_interval w
                  = Some (Inr (st = JStr ''idle''), w')
             \<and> clock w' = clock w + elapsed env poll_interval (sent w) ps
                  + int (fst (env (sent w + attempts ps)))"
    using h by (simp add: wait_for_session_ready_def fuel)
next
  assume h: "length ps < fuel
        \<and> scripted statement_final env (sent w) ps
        \<and> elapsed env poll_interval (sent w) ps < timeout c
        \<and> snd (env (sent w + attempts ps)) = Responds r
        \<and> 200 \<le> status_code r \<and> status_code r < 300 \<and> body r = Some j
        \<and> get_state j = Inr st \<and> st \<in> statement_final"
  then obtain n where fuel: "fuel = Suc (length ps + n)"
    using less_iff_Suc_add[of "length ps" fuel] by auto
  from h have f: "st \<in> statement_final" and sc: "scripted statement_final env (sent w) ps"
    and a: "snd (env (sent w + attempts ps)) = Responds r"
    and r: "200 \<le> status_code r" "status_code r < 300" "body r = Some j" "get_state j = Inr st"
    by blast+
  from h have t: "clock w - clock w + elapsed env poll_interval (sent w) ps < timeout c" by simp
  from result_loop_polls[OF f sc t a r, of n loc]
  show "\<exists>w'. get_statement_result fuel env c loc poll_interval w = Some (Inr (Some j), w')
             \<and> clock w' = clock w + elapsed env poll_interval (sent w) ps
                  + int (fst (env (sent w + attempts ps)))"
    by (simp add: get_statement_result_def fuel)
qed

text \<open>
  C4, witness. A poll answered 404, a poll answered 503 three times and a poll that reads
  starting are followed by a poll that reads idle: the result is True after 32 seconds.
  A statement poll answered 404 is followed by one that reads error: the result is the
  record. A session and a statement that never leave starting, polled every 5 seconds
  with a timeout of 10 seconds, give False and None.
\<close>

theorem C4_timeouts_return_witness:
  "map_option fst (wait_for_session_ready 4
      (script [(1, Responds (reply 404)), (0, Responds (reply 503)), (0, Responds (reply 503)),
               (0, Responds (reply 503)),
               (1, Responds (reply_json (JObj [(''state'', JStr ''starting'')])))]
         (1, Responds (reply_json (JObj [(''state'', JStr ''idle'')]))))
      session_client 5 fresh_world) = Some (Inr True)
   \<and> map_option (\<lambda>x. clock (snd x)) (wait_for_session_ready 4
      (script [(1, Responds (reply 404)), (0, Responds (reply 503)), (0, Responds (reply 503)),
               (0, Responds (reply 503)),
               (1, Responds (reply_json (JObj [(''state'', JStr ''starting'')])))]
         (1, Responds (reply_json (JObj [(''state'', JStr ''idle'')]))))
      session_client 5 fresh_world) = Some 32
   \<and> map_option fst (get_statement_result 2
      (script [(1, Responds (reply 404))]
         (1, Responds (reply_json (JObj [(''state'', JStr ''error'')]))))
      session_client ''/sessions/7/statements/0'' 2 fresh_world)
       = Some (Inr (Some (JObj [(''state'', JStr ''error'')])))
   \<and> map_option fst (wait_for_session_ready 11
      (script [] (0, Responds (reply_json (JObj [(''state'', JStr ''starting'')]))))
      (session_client\<lparr>timeout := 10\<rparr>) 5 fresh_world) = Some (Inr False)
   \<and> map_option fst (get_statement_result 11
      (script [] (0, Responds (reply_json (JObj [(''state'', JStr ''starting'')]))))
      (session_client\<lparr>timeout := 10\<rparr>) ''/sessions/7/statements/0'' 5 fresh_world)
       = Some (Inr None)"
proof -
  let ?e1 = "script [(1, Responds (reply 404)), (0, Responds (reply 503)), (0, Responds (reply 503)),
               (0, Responds (reply 503)),
               (1, Responds (reply_json (JObj [(''state'', JStr ''starting'')])))]
         (1, Responds (reply_json (JObj [(''state'', JStr ''idle'')])))"
  let ?e2 = "script [(1, Responds (reply 404))]
         (1, Responds (reply_json (JObj [(''state'', JStr ''error'')])))"
  let ?e3 = "script [] (0, Responds (reply_json (JObj [(''state'', JStr ''starting'')])))"
  let ?c = "session_client\<lparr>timeout := 10\<rparr>"
  let ?loc = "''/sessions/7/statements/0''"
  have simps: "sent fresh_world = 0" "clock fresh_world = 0"
    "session_url session_client = Some ''/sessions/7''" "timeout session_client = 300"
    "session_url ?c = Some ''/sessions/7''" "timeout ?c = 10"
    by (simp_all add: fresh_world_def session_client_def new_client_def)
  have a: "session_url session_client = Some ''/sessions/7'' \<and> ''/sessions/7'' \<noteq> []
        \<and> length [Refused, Unanswered, Waiting] < 4
        \<and> scripted session_final ?e1 (sent fresh_world) [Refused, Unanswered, Waiting]
        \<and> elapsed ?e1 5 (sent fresh_world) [Refused, Unanswered, Waiting] < timeout session_client
        \<and> JStr ''idle'' \<in> session_final
        \<and> yields (?e1 (sent fresh_world + attempts [Refused, Unanswered, Waiting])) (JStr ''idle'')"
    by (simp add: simps script_def refused_answer_def retryable_answer_def pending_def yields_def
          observed_def reply_def reply_json_def session_final_def)
  have el: "elapsed ?e1 5 (sent fresh_world) [Refused, Unanswered, Waiting]
      + int (fst (?e1 (sent fresh_world + attempts [Refused, Unanswered, Waiting]))) = 32"
    by (simp add: simps script_def)
  have b: "length [Refused] < 2
        \<and> scripted statement_final ?e2 (sent fresh_world) [Refused]
        \<and> elapsed ?e2 2 (sent fresh_world) [Refused] < timeout session_client
        \<and> snd (?e2 (sent fresh_world + attempts [Refused]))
            = Responds (reply_json (JObj [(''state'', JStr ''error'')]))
        \<and> 200 \<le> status_code (reply_json (JObj [(''state'', JStr ''error'')]))
        \<and> status_code (reply_json (JObj [(''state'', JStr ''error'')])) < 300
        \<and> body (reply_json (JObj [(''state'', JStr ''error'')]))
            = Some (JObj [(''state'', JStr ''error'')])
        \<and> get_state (JObj [(''state'', JStr ''error'')]) = Inr (JStr ''error'')
        \<and> JStr ''error'' \<in> statement_final"
    by (simp add: simps script_def refused_answer_def reply_def reply_json_def statement_final_def)
  have c: "(0::nat) < 5 \<and> nat (timeout ?c) < 11 \<and> session_url ?c = Some ''/sessions/7''
      \<and> ''/sessions/7'' \<noteq> [] \<and> (\<forall>i. quiet session_final (?e3 i))"
    by (simp add: simps script_def quiet_def pending_def observed_def reply_json_def
          session_final_def)
  have d: "(0::nat) < 5 \<and> nat (timeout ?c) < 11 \<and> (\<forall>i. quiet statement_final (?e3 i))"
    by (simp add: simps script_def quiet_def pending_def observed_def reply_json_def
          statement_final_def)
  note t1 = C4_timeouts_return[where env = ?e1 and c = session_client and w = fresh_world
      and poll_interval = 5 and fuel = 4 and url = "''/sessions/7''"
      and ps = "[Refused, Unanswered, Waiting]" and st = "JStr ''idle''"]
  note t2 = C4_timeouts_return[where env = ?e2 and c = session_client and w = fresh_world
      and poll_interval = 2 and fuel = 2 and loc = ?loc and ps = "[Refused]"
      and st = "JStr ''error''" and r = "reply_json (JObj [(''state'', JStr ''error'')])"
      and j = "JObj [(''state'', JStr ''error'')]"]
  note t3 = C4_timeouts_return[where env = ?e3 and c = ?c and w = fresh_world
      and poll_interval = 5 and fuel = 11 and url = "''/sessions/7''" and loc = ?loc]
  from conjunct1[OF conjunct2[OF conjunct2[OF t1]]] a
  obtain w1 where r1: "wait_for_session_ready 4 ?e1 session_client 5 fresh_world
      = Some (Inr (JStr ''idle'' = JStr ''idle''), w1)"
    "clock w1 = clock fresh_world + elapsed ?e1 5 (sent fresh_world) [Refused, Unanswered, Waiting]
        + int (fst (?e1 (sent fresh_world + attempts [Refused, Unanswered, Waiting])))"
    by blast
  have c1: "clock w1 = 32" using r1(2) el by (simp add: simps)
  from conjunct2[OF conjunct2[OF conjunct2[OF t2]]] b
  obtain w2 where r2: "get_statement_result 2 ?e2 session_client ?loc 2 fresh_world
      = Some (Inr (Some (JObj [(''state'', JStr ''error'')])), w2)" by blast
  from conjunct1[OF t3] c
  obtain w3 where r3: "wait_for_session_ready 11 ?e3 ?c 5 fresh_world = Some (Inr False, w3)"
    by blast
  from conjunct1[OF conjunct2[OF t3]] d
  obtain w4 where r4: "get_statement_result 11 ?e3 ?c ?loc 5 fresh_world = Some (Inr None, w4)"
    by blast
  show ?thesis unfolding r1(1) r2 r3 r4 using c1 by simp
qed

text \<open>
  C4, counterexample to the claim as stated: with a timeout of 10 seconds and a poll every
  5 seconds, a session that stays starting makes \<open>wait_for_session_ready\<close> return
  False, exactly as a session that reports dead does, and a statement that stays running
  makes \<open>get_statement_result\<close> return None; neither raises. A single poll whose three
  attempts all fail at network level does end \<open>wait_for_session_ready\<close>, with the
  transport error.
\<close>

theorem C4_counterexample:
  "map_option fst (wait_for_session_ready 3
      (script [] (0, Responds (reply_json (JObj [(''state'', JStr ''starting'')]))))
      (session_client\<lparr>timeout := 10\<rparr>) 5 fresh_world) = Some (Inr False)
   \<and> map_option fst (wait_for_session_ready 3
      (script [] (0, Responds (reply_json (JObj [(''state'', JStr ''dead'')]))))
      (session_client\<lparr>timeout := 10\<rparr>) 5 fresh_world) = Some (Inr False)
   \<and> map_option fst (get_statement_result 3
      (script [] (0, Responds (reply_json (JObj [(''state'', JStr ''running'')]))))
      (session_client\<lparr>timeout := 10\<rparr>) ''/sessions/7/statements/0'' 5 fresh_world)
       = Some (Inr None)
   \<and> map_option fst (wait_for_session_ready 3 (script [] (0, NetFails))
      (session_client\<lparr>timeout := 10\<rparr>) 5 fresh_world) = Some (Inl RequestException)"
  by (simp add: run_simps wait_for_session_ready_def get_statement_result_def ok_def
       numeral_3_eq_3)

end
